theory Spec2Isabelle
  imports Main
begin

section \<open>The document tree (the part of the DOM that src/jobs/docs.ts uses)\<close>

text \<open>
  A page is parsed by JSDOM into a tree of nodes. The job only distinguishes element
  nodes (which \<open>nextElementSibling\<close>, \<open>parentElement\<close> and \<open>querySelectorAll\<close>
  see) from the other nodes (text and comments, which only matter for \<open>textContent\<close>).
  A document is the list of child nodes of the \<open>Document\<close> node. A node is referred
  to by its path from the \<open>Document\<close> node: the list of child indices, root first; the
  empty path is the \<open>Document\<close> node itself. Two references are the same object
  (\<open>===\<close>) exactly when the paths are equal.
\<close>

datatype node = Text string | Comment string | Element string "node list"

type_synonym document = "node list"

type_synonym path = "nat list"

text \<open>A JavaScript reference to a node: \<open>undefined\<close>, \<open>null\<close>, or a node of the tree.\<close>

datatype ref = Undefined | Null | Node path

datatype error =
    TypeError          \<comment> \<open>a property read on \<open>null\<close>/\<open>undefined\<close>, or a call of a non-function\<close>
  | FetchRejected      \<comment> \<open>the promise of \<open>fetch\<close> rejects\<close>
  | ParsedPayloadSchemaError  \<comment> \<open>a payload does not satisfy the schema of the invoked job\<close>
  | ApiError string    \<comment> \<open>a call of the OpenAI integration rejects\<close>
  | NoAssistantFound string  \<comment> \<open>\<open>throw new Error(`No assistant found for ${payload.url}`)\<close>\<close>
  | RunNotCompleted string string  \<comment> \<open>\<open>throw new Error(`Run finished with status ...`)\<close>\<close>

fun truthy :: "ref \<Rightarrow> bool" where
  "truthy (Node p) = True"
| "truthy Null = False"
| "truthy Undefined = False"

fun is_element :: "node \<Rightarrow> bool" where
  "is_element (Element t cs) = True"
| "is_element (Text s) = False"
| "is_element (Comment s) = False"

fun childNodes :: "node \<Rightarrow> node list" where
  "childNodes (Element t cs) = cs"
| "childNodes (Text s) = []"
| "childNodes (Comment s) = []"

fun tagName :: "node \<Rightarrow> string" where
  "tagName (Element t cs) = t"
| "tagName (Text s) = []"
| "tagName (Comment s) = []"

text \<open>The node a non-empty path denotes, if any.\<close>

fun node_at :: "node list \<Rightarrow> path \<Rightarrow> node option" where
  "node_at cs [] = None"
| "node_at cs [i] = (if i < length cs then Some (cs ! i) else None)"
| "node_at cs (i # j # p) =
     (if i < length cs then node_at (childNodes (cs ! i)) (j # p) else None)"

text \<open>The child nodes of the node at a path; the empty path is the \<open>Document\<close>.\<close>

definition children_at :: "document \<Rightarrow> path \<Rightarrow> node list" where
  "children_at doc p =
     (if p = [] then doc
      else (case node_at doc p of None \<Rightarrow> [] | Some n \<Rightarrow> childNodes n))"

text \<open>
  \<open>x.nextElementSibling\<close>: a \<open>TypeError\<close> on \<open>null\<close>/\<open>undefined\<close>; \<open>undefined\<close> on
  the \<open>Document\<close> node, which has no such property; otherwise the first element among
  the later children of the same parent, or \<open>null\<close>.
\<close>

definition nextElementSibling :: "document \<Rightarrow> ref \<Rightarrow> error + ref" where
  "nextElementSibling doc r =
     (case r of
        Undefined \<Rightarrow> Inl TypeError
      | Null \<Rightarrow> Inl TypeError
      | Node p \<Rightarrow>
          (if p = [] then Inr Undefined
           else
             (let sibs = children_at doc (butlast p) in
              case find (\<lambda>j. is_element (sibs ! j)) [Suc (last p) ..< length sibs] of
                None \<Rightarrow> Inr Null
              | Some j \<Rightarrow> Inr (Node (butlast p @ [j])))))"

text \<open>\<open>x.parentNode\<close>: the parent of a node; \<open>null\<close> for the \<open>Document\<close> node.\<close>

definition parentNode :: "document \<Rightarrow> ref \<Rightarrow> error + ref" where
  "parentNode doc r =
     (case r of
        Undefined \<Rightarrow> Inl TypeError
      | Null \<Rightarrow> Inl TypeError
      | Node p \<Rightarrow> (if p = [] then Inr Null else Inr (Node (butlast p))))"

text \<open>
  \<open>x?.parentElement?.nextElementSibling\<close> as line 43 writes it: \<open>undefined\<close> as soon as
  \<open>x\<close> or its parent element is missing; the parent element is \<open>null\<close> when the parent
  is the \<open>Document\<close> node.
\<close>

definition parentElement_nextElementSibling :: "document \<Rightarrow> ref \<Rightarrow> ref" where
  "parentElement_nextElementSibling doc r =
     (case r of
        Undefined \<Rightarrow> Undefined
      | Null \<Rightarrow> Undefined
      | Node p \<Rightarrow>
          (if p = [] \<or> butlast p = [] then Undefined
           else (case nextElementSibling doc (Node (butlast p)) of
                   Inl e \<Rightarrow> Undefined
                 | Inr r' \<Rightarrow> r')))"

text \<open>
  \<open>textContent\<close> of a node: the text of a text or comment node; for an element, the
  concatenation of the \<open>textContent\<close> of its children, comments left out.
\<close>

fun is_comment :: "node \<Rightarrow> bool" where
  "is_comment (Comment s) = True"
| "is_comment (Text s) = False"
| "is_comment (Element t cs) = False"

fun textContent :: "node \<Rightarrow> string" where
  "textContent (Text s) = s"
| "textContent (Comment s) = s"
| "textContent (Element t cs) = concat (map textContent (filter (\<lambda>c. \<not> is_comment c) cs))"

text \<open>
  \<open>el.textContent\<close> through a reference. The job reads it from elements only, where it
  is a string; \<open>join\<close> turns the \<open>null\<close> of any other reference into the empty string.
\<close>

definition textContent_of :: "document \<Rightarrow> ref \<Rightarrow> string" where
  "textContent_of doc r =
     (case r of
        Node p \<Rightarrow> (case node_at doc p of None \<Rightarrow> [] | Some n \<Rightarrow> textContent n)
      | Null \<Rightarrow> []
      | Undefined \<Rightarrow> [])"

section \<open>getElementsBetween (lines 178-202)\<close>

text \<open>
  The while loop, one unfolding per iteration. The loop variables are
  \<open>currentElement\<close>, \<open>startElement\<close> (reassigned on ascension) and \<open>elements\<close>.
  \<open>None\<close> stands for a loop that never exits.
\<close>

partial_function (option) getElementsBetween_loop ::
  "document \<Rightarrow> ref \<Rightarrow> ref \<Rightarrow> ref \<Rightarrow> ref list \<Rightarrow> (error + ref list) option" where
  "getElementsBetween_loop doc endElement currentElement startElement elements =
     (if truthy currentElement \<and> currentElement \<noteq> endElement then
        (case nextElementSibling doc currentElement of
           Inl e \<Rightarrow> Some (Inl e)
         | Inr c1 \<Rightarrow>
             (if \<not> truthy c1 then
                (case parentNode doc startElement of
                   Inl e \<Rightarrow> Some (Inl e)
                 | Inr c2 \<Rightarrow>
                     (if c2 = endElement then Some (Inr elements)
                      else getElementsBetween_loop doc endElement c2 c2 elements))
              else if truthy c1 \<and> c1 \<noteq> endElement then
                getElementsBetween_loop doc endElement c1 startElement (elements @ [c1])
              else getElementsBetween_loop doc endElement c1 startElement elements))
      else Some (Inr elements))"

definition getElementsBetween :: "document \<Rightarrow> ref \<Rightarrow> ref \<Rightarrow> (error + ref list) option" where
  "getElementsBetween doc startElement endElement =
     getElementsBetween_loop doc endElement startElement startElement []"


text \<open>
  Two measures of the loop state: the depth of \<open>startElement\<close> below the
  \<open>Document\<close> node, and the number of children of the cursor's parent from the cursor on.
\<close>

fun depth :: "ref \<Rightarrow> nat" where
  "depth (Node p) = Suc (length p)"
| "depth Null = 0"
| "depth Undefined = 0"

fun later_siblings :: "document \<Rightarrow> ref \<Rightarrow> nat" where
  "later_siblings doc (Node p) =
     (if p = [] then 0 else length (children_at doc (butlast p)) - last p)"
| "later_siblings doc Null = 0"
| "later_siblings doc Undefined = 0"

section \<open>The job process-single-url (lines 13-68)\<close>

text \<open>
  \<open>querySelectorAll\<close> with a list of type selectors: the elements whose tag name is in
  the list, in document order (an element before its descendants, siblings left to
  right). Tag names are the local names the HTML parser produces (lower case).
\<close>

fun select_in :: "string list \<Rightarrow> path \<Rightarrow> nat \<Rightarrow> node list \<Rightarrow> path list" where
  "select_in tags p i [] = []"
| "select_in tags p i (Element t cs # ns) =
     (if t \<in> set tags then [p @ [i]] else []) @ select_in tags (p @ [i]) 0 cs
       @ select_in tags p (Suc i) ns"
| "select_in tags p i (Text s # ns) = select_in tags p (Suc i) ns"
| "select_in tags p i (Comment s # ns) = select_in tags p (Suc i) ns"

definition querySelectorAll :: "document \<Rightarrow> string list \<Rightarrow> ref list" where
  "querySelectorAll doc tags = map Node (select_in tags [] 0 doc)"

text \<open>
  Lines 32-34: \<open>querySelectorAll("script, style").forEach((el) => el.remove())\<close> leaves
  the tree without any element of these tags.
\<close>

fun remove_tags :: "string list \<Rightarrow> node \<Rightarrow> node" where
  "remove_tags tags (Element t cs) =
     Element t (map (remove_tags tags)
       (filter (\<lambda>c. \<not> (is_element c \<and> tagName c \<in> set tags)) cs))"
| "remove_tags tags (Text s) = Text s"
| "remove_tags tags (Comment s) = Comment s"

definition remove_scripts_and_styles :: "document \<Rightarrow> document" where
  "remove_scripts_and_styles doc =
     map (remove_tags [''script'', ''style''])
       (filter (\<lambda>c. \<not> (is_element c \<and> tagName c \<in> set [''script'', ''style''])) doc)"

definition heading_tags :: "string list" where
  "heading_tags = [''h1'', ''h2'', ''h3'', ''h4'', ''h5'', ''h6'']"

definition newline :: string where
  "newline = [CHR 0x0A]"

text \<open>\<open>Array.prototype.join\<close> on strings.\<close>

fun join :: "string \<Rightarrow> string list \<Rightarrow> string" where
  "join sep [] = []"
| "join sep [x] = x"
| "join sep (x # y # ys) = x @ sep @ join sep (y # ys)"

record page_section =
  title :: string
  content :: string

text \<open>
  Lines 47-55, the loop over the headings \<open>content[i]\<close>, from index \<open>i\<close> on; the list
  of headings is called \<open>hs\<close> here. \<open>content?.[i + 1] || lastElement\<close> is the next
  heading when there is one and \<open>lastElement\<close> otherwise.
\<close>

function heading_loop ::
  "document \<Rightarrow> ref list \<Rightarrow> ref \<Rightarrow> nat \<Rightarrow> page_section list \<Rightarrow> (error + page_section list) option" where
  "heading_loop doc hs lastElement i elements =
     (if i < length hs then
        (let element = hs ! i;
             nextElement = (if Suc i < length hs then hs ! Suc i else lastElement)
         in case getElementsBetween doc element nextElement of
              None \<Rightarrow> None
            | Some (Inl e) \<Rightarrow> Some (Inl e)
            | Some (Inr elementsBetween) \<Rightarrow>
                heading_loop doc hs lastElement (Suc i)
                  (elements @
                    [\<lparr>title = textContent_of doc element,
                      content = join newline (map (textContent_of doc) elementsBetween)\<rparr>]))
      else Some (Inr elements))"
  by pat_completeness auto
termination
  by (relation "measure (\<lambda>(doc, hs, lastElement, i, elements). length hs - i)") auto

text \<open>
  Lines 37-55 (the spec's \<open>segment\<close>): the headings in document order, the tail boundary
  \<open>content[content.length - 1]?.parentElement?.nextElementSibling\<close>, and the loop.
\<close>

definition segment :: "document \<Rightarrow> (error + page_section list) option" where
  "segment doc =
     (let hs = querySelectorAll doc heading_tags;
          lastElement =
            parentElement_nextElementSibling doc (if hs = [] then Undefined else last hs)
      in heading_loop doc hs lastElement 0 [])"

text \<open>Lines 58-64: the template literal of the page text, character by character.\<close>

definition indent :: string where
  "indent = replicate 8 (CHR '' '')"

definition dashes :: string where
  "dashes = replicate 34 (CHR ''-'')"

definition render_page :: "string \<Rightarrow> page_section list \<Rightarrow> string" where
  "render_page u elements =
     newline @ indent @ dashes @ newline
     @ indent @ ''url: '' @ u @ newline @ newline
     @ indent @ join newline (map (\<lambda>el. title el @ newline @ content el) elements) @ newline
     @ newline
     @ indent @ dashes @ newline
     @ indent"


section \<open>The collaborators of the jobs\<close>

text \<open>
  The values \<open>XMLParser.parse\<close> returns. The jobs never look at the value of a number.
\<close>

datatype jsval =
    JUndefined
  | JNull
  | JBool bool
  | JNumber int
  | JString string
  | JArray "jsval list"
  | JObject "(string \<times> jsval) list"

text \<open>
  A property read \<open>v.k\<close> for the keys the job reads (\<open>urlset\<close>, \<open>url\<close>, \<open>loc\<close>):
  a \<open>TypeError\<close> on \<open>undefined\<close> and \<open>null\<close>; the member of an object, \<open>undefined\<close>
  when it has none; \<open>undefined\<close> on strings, numbers, booleans and arrays, which have
  no property of these names.
\<close>

fun get_prop :: "jsval \<Rightarrow> string \<Rightarrow> error + jsval" where
  "get_prop JUndefined k = Inl TypeError"
| "get_prop JNull k = Inl TypeError"
| "get_prop (JObject kvs) k = Inr (case map_of kvs k of None \<Rightarrow> JUndefined | Some v \<Rightarrow> v)"
| "get_prop (JBool b) k = Inr JUndefined"
| "get_prop (JNumber n) k = Inr JUndefined"
| "get_prop (JString s) k = Inr JUndefined"
| "get_prop (JArray xs) k = Inr JUndefined"

record response =
  status :: nat
  body :: string

record run =
  run_status :: string
  thread_id :: string
  last_error :: string

type_synonym message = string

text \<open>
  The calls a job makes on the OpenAI integration and on the key-value store
  \<open>io.store.env\<close>, in the order it makes them. \<open>AssistantsCreate\<close> carries the site
  URL, from which the name and the instructions of the assistant are built, and the
  \<open>file_ids\<close>; \<open>RunsCreate\<close> the thread and the \<open>assistant_id\<close>.
\<close>

datatype call =
    FilesCreate string
  | StoreGet string
  | StoreSet string string
  | AssistantsCreate string "string list"
  | AssistantsUpdate string "string list"
  | AssistantsDel string
  | ThreadsRetrieve string
  | ThreadsCreate
  | MessagesCreate string string
  | RunsCreate string string
  | MessagesList string

text \<open>
  What lies outside the repository, as parameters: \<open>fetch\<close> (\<open>None\<close> when the promise
  rejects), the XML parser, JSDOM, the URL check of the zod schema, and the answers of
  the OpenAI service, each of which may depend on the calls made so far and may be a
  rejection.
\<close>

record env =
  fetch :: "string \<Rightarrow> response option"
  xml_parse :: "string \<Rightarrow> jsval"
  jsdom :: "string \<Rightarrow> document"
  is_url :: "string \<Rightarrow> bool"
  files_create :: "call list \<Rightarrow> string \<Rightarrow> error + string"
  assistants_create :: "call list \<Rightarrow> string \<Rightarrow> string list \<Rightarrow> error + string"
  assistants_update :: "call list \<Rightarrow> string \<Rightarrow> string list \<Rightarrow> error + unit"
  assistants_del :: "call list \<Rightarrow> string \<Rightarrow> error + unit"
  threads_retrieve :: "call list \<Rightarrow> string \<Rightarrow> error + string"
  threads_create :: "call list \<Rightarrow> error + string"
  messages_create :: "call list \<Rightarrow> string \<Rightarrow> string \<Rightarrow> error + unit"
  runs_create :: "call list \<Rightarrow> string \<Rightarrow> string \<Rightarrow> error + run"
  messages_list :: "call list \<Rightarrow> string \<Rightarrow> error + message list"

text \<open>
  The state the jobs share: the Site Registry (the store \<open>io.store.env\<close>, from site
  URL to the \<open>id\<close> of the stored object) and the calls made so far.
\<close>

record state =
  registry :: "string \<rightharpoonup> string"
  trace :: "call list"

definition io :: "call \<Rightarrow> state \<Rightarrow> state" where
  "io c st = st\<lparr>trace := trace st @ [c]\<rparr>"

text \<open>
  The run of process-single-url (lines 22-67) on the \<open>url\<close> of a payload that has
  passed the schema of the trigger, with the result the invoking job sees: \<open>Inr\<close> the
  \<open>page\<close> of the output when the run succeeds, \<open>Inl\<close> when it fails. The run fails
  when \<open>fetch\<close> rejects; the status of the response is not looked at.
\<close>

definition process_single_url :: "env \<Rightarrow> string \<Rightarrow> (error + string) option" where
  "process_single_url env payload_url =
     (case fetch env payload_url of
        None \<Rightarrow> Some (Inl FetchRejected)
      | Some response \<Rightarrow>
          (let dom = remove_scripts_and_styles (jsdom env (body response)) in
           case segment dom of
             None \<Rightarrow> None
           | Some (Inl e) \<Rightarrow> Some (Inl e)
           | Some (Inr elements) \<Rightarrow> Some (Inr (render_page payload_url elements))))"

text \<open>
  The schema of the trigger of process-single-url (lines 17-21),
  \<open>z.object({ url: z.string().url() })\<close>, applied to the payload \<open>{ url }\<close>: the
  \<open>url\<close> must be a string, and a URL.
\<close>

definition parse_payload :: "env \<Rightarrow> jsval \<Rightarrow> error + string" where
  "parse_payload env v =
     (case v of
        JString u \<Rightarrow> (if is_url env u then Inr u else Inl ParsedPayloadSchemaError)
      | JUndefined \<Rightarrow> Inl ParsedPayloadSchemaError
      | JNull \<Rightarrow> Inl ParsedPayloadSchemaError
      | JBool b \<Rightarrow> Inl ParsedPayloadSchemaError
      | JNumber n \<Rightarrow> Inl ParsedPayloadSchemaError
      | JArray xs \<Rightarrow> Inl ParsedPayloadSchemaError
      | JObject kvs \<Rightarrow> Inl ParsedPayloadSchemaError)"

fun parse_payloads :: "env \<Rightarrow> jsval list \<Rightarrow> error + string list" where
  "parse_payloads env [] = Inr []"
| "parse_payloads env (v # vs) =
     (case parse_payload env v of
        Inl e \<Rightarrow> Inl e
      | Inr u \<Rightarrow> (case parse_payloads env vs of Inl e \<Rightarrow> Inl e | Inr us \<Rightarrow> Inr (u # us)))"

section \<open>The job process-site (lines 70-176)\<close>

text \<open>\<open>url.map((x) => x.loc)\<close> on the elements of an array, left to right.\<close>

fun map_loc :: "jsval list \<Rightarrow> error + jsval list" where
  "map_loc [] = Inr []"
| "map_loc (x # xs) =
     (case get_prop x ''loc'' of
        Inl e \<Rightarrow> Inl e
      | Inr v \<Rightarrow> (case map_loc xs of Inl e \<Rightarrow> Inl e | Inr vs \<Rightarrow> Inr (v # vs)))"

text \<open>
  The call \<open>url.map(...)\<close>: only an array has the function; on every other value the
  call is a \<open>TypeError\<close>.
\<close>

fun call_map_loc :: "jsval \<Rightarrow> error + jsval list" where
  "call_map_loc (JArray xs) = map_loc xs"
| "call_map_loc JUndefined = Inl TypeError"
| "call_map_loc JNull = Inl TypeError"
| "call_map_loc (JBool b) = Inl TypeError"
| "call_map_loc (JNumber n) = Inl TypeError"
| "call_map_loc (JString s) = Inl TypeError"
| "call_map_loc (JObject kvs) = Inl TypeError"

text \<open>The task get-sitemap-urls (lines 87-94; the spec's \<open>crawl\<close>).\<close>

definition get_sitemap_urls :: "env \<Rightarrow> string \<Rightarrow> error + jsval list" where
  "get_sitemap_urls env sitemapUrl =
     (case fetch env sitemapUrl of
        None \<Rightarrow> Inl FetchRejected
      | Some response \<Rightarrow>
          (let parsed = xml_parse env (body response) in
           case get_prop parsed ''urlset'' of
             Inl e \<Rightarrow> Inl e
           | Inr urlset \<Rightarrow>
               (case get_prop urlset ''url'' of
                  Inl e \<Rightarrow> Inl e
                | Inr url_member \<Rightarrow> call_map_loc url_member)))"

text \<open>\<open>Array.prototype.slice\<close> with two non-negative indices.\<close>

definition slice :: "'a list \<Rightarrow> nat \<Rightarrow> nat \<Rightarrow> 'a list" where
  "slice xs a b =
     (let k = min a (length xs); final = min b (length xs)
      in take (final - k) (drop k xs))"

record chunk =
  index :: nat
  urls :: "jsval list"

text \<open>Lines 97-104 (the spec's \<open>chunk\<close>): the loop, from \<open>i\<close> on.\<close>

function chunk_loop :: "jsval list \<Rightarrow> nat \<Rightarrow> chunk list \<Rightarrow> chunk list" where
  "chunk_loop sitemapUrls i chunks =
     (if i < length sitemapUrls then
        chunk_loop sitemapUrls (i + 25)
          (chunks @ [\<lparr>index = i, urls = slice sitemapUrls i (i + 25)\<rparr>])
      else chunks)"
  by pat_completeness auto
termination
  by (relation "measure (\<lambda>(sitemapUrls, i, chunks). length sitemapUrls - i)") auto

text \<open>
  \<open>batchInvokeAndWaitForCompletion\<close> (line 111). The call first parses every payload
  with the schema of the invoked job, in the calling run: a payload that does not
  satisfy it makes the call throw \<open>ParsedPayloadSchemaError\<close> before any run starts.
  Otherwise process-single-url is run on every payload, and the call returns the
  results, in the order of the payloads, once every run has finished; it does not return
  if one of them never finishes.
\<close>

definition batchInvokeAndWaitForCompletion ::
  "env \<Rightarrow> jsval list \<Rightarrow> (error + (error + string) list) option" where
  "batchInvokeAndWaitForCompletion env chunk_urls =
     (case parse_payloads env chunk_urls of
        Inl e \<Rightarrow> Some (Inl e)
      | Inr payload_urls \<Rightarrow>
          (case those (map (process_single_url env) payload_urls) of
             None \<Rightarrow> None
           | Some results \<Rightarrow> Some (Inr results)))"

record page_entry =
  url :: jsval
  page :: string

text \<open>An array read \<open>xs[i]\<close>: \<open>undefined\<close> out of range.\<close>

definition js_index :: "jsval list \<Rightarrow> nat \<Rightarrow> jsval" where
  "js_index xs i = (if i < length xs then xs ! i else JUndefined)"

text \<open>Lines 116-126: the loop over the results of one batch, from \<open>i\<close> on.\<close>

function results_loop ::
  "(error + string) list \<Rightarrow> jsval list \<Rightarrow> nat \<Rightarrow> page_entry list \<Rightarrow> page_entry list" where
  "results_loop results chunk_urls i pages =
     (if i < length results then
        (case results ! i of
           Inr output_page \<Rightarrow>
             results_loop results chunk_urls (Suc i)
               (pages @ [\<lparr>url = js_index chunk_urls i, page = output_page\<rparr>])
         | Inl e \<Rightarrow> results_loop results chunk_urls (Suc i) pages)
      else pages)"
  by pat_completeness auto
termination
  by (relation "measure (\<lambda>(results, chunk_urls, i, pages). length results - i)") auto

text \<open>Lines 110-127: the loop over the chunks, one batch after the other.\<close>

fun chunks_loop ::
  "env \<Rightarrow> chunk list \<Rightarrow> page_entry list \<Rightarrow> (error + page_entry list) option" where
  "chunks_loop env [] pages = Some (Inr pages)"
| "chunks_loop env (c # cs) pages =
     (case batchInvokeAndWaitForCompletion env (urls c) of
        None \<Rightarrow> None
      | Some (Inl e) \<Rightarrow> Some (Inl e)
      | Some (Inr results) \<Rightarrow> chunks_loop env cs (results_loop results (urls c) 0 pages))"

text \<open>Line 133: \<open>pages.map((page) => page.page).join("\n\n")\<close>.\<close>

definition fileContents :: "page_entry list \<Rightarrow> string" where
  "fileContents pages = join (newline @ newline) (map page pages)"

text \<open>
  Lines 85-133 (the spec's \<open>runCrawl\<close>): the sitemap, the chunks, the batches and the
  text of the corpus. Logging is left out.
\<close>

definition run_crawl :: "env \<Rightarrow> string \<Rightarrow> (error + string) option" where
  "run_crawl env site =
     (case get_sitemap_urls env (site @ ''/sitemap.xml'') of
        Inl e \<Rightarrow> Some (Inl e)
      | Inr sitemapUrls \<Rightarrow>
          (case chunks_loop env (chunk_loop sitemapUrls 0 []) [] of
             None \<Rightarrow> None
           | Some (Inl e) \<Rightarrow> Some (Inl e)
           | Some (Inr pages) \<Rightarrow> Some (Inr (fileContents pages))))"

text \<open>
  Lines 135-174 (the spec's \<open>publish\<close>): the upload, the lookup in the registry, and
  the creation or the update of the assistant.
\<close>

definition publish :: "env \<Rightarrow> string \<Rightarrow> string \<Rightarrow> state \<Rightarrow> (error + string) \<times> state" where
  "publish env site file_text st =
     (let st1 = io (FilesCreate file_text) st in
      case files_create env (trace st) file_text of
        Inl e \<Rightarrow> (Inl e, st1)
      | Inr file_id \<Rightarrow>
          (let st2 = io (StoreGet site) st1 in
           case registry st1 site of
             None \<Rightarrow>
               (let st3 = io (AssistantsCreate site [file_id]) st2 in
                case assistants_create env (trace st2) site [file_id] of
                  Inl e \<Rightarrow> (Inl e, st3)
                | Inr new_id \<Rightarrow>
                    (Inr new_id,
                     (io (StoreSet site new_id) st3)
                       \<lparr>registry := (registry st3)(site \<mapsto> new_id)\<rparr>))
           | Some assistant_id \<Rightarrow>
               (let st3 = io (AssistantsUpdate assistant_id [file_id]) st2 in
                case assistants_update env (trace st2) assistant_id [file_id] of
                  Inl e \<Rightarrow> (Inl e, st3)
                | Inr u \<Rightarrow> (Inr assistant_id, st3))))"


section \<open>The jobs delete-assistant (lines 204-219) and question-assistant (lines 221-287)\<close>

definition delete_assistant :: "env \<Rightarrow> string \<Rightarrow> state \<Rightarrow> (error + unit) \<times> state" where
  "delete_assistant env assistant_id st =
     (case assistants_del env (trace st) assistant_id of
        Inl e \<Rightarrow> (Inl e, io (AssistantsDel assistant_id) st)
      | Inr u \<Rightarrow> (Inr (), io (AssistantsDel assistant_id) st))"

text \<open>
  \<open>payload.threadId ? retrieve : create\<close> (lines 246-248): an absent or empty
  \<open>threadId\<close> is falsy.
\<close>

definition get_or_create_thread ::
  "env \<Rightarrow> string option \<Rightarrow> state \<Rightarrow> (error + string) \<times> state" where
  "get_or_create_thread env threadId st =
     (case threadId of
        None \<Rightarrow> (threads_create env (trace st), io ThreadsCreate st)
      | Some t \<Rightarrow>
          (if t \<noteq> [] then (threads_retrieve env (trace st) t, io (ThreadsRetrieve t) st)
           else (threads_create env (trace st), io ThreadsCreate st)))"

definition question_assistant ::
  "env \<Rightarrow> string \<Rightarrow> string \<Rightarrow> string option \<Rightarrow> state \<Rightarrow> (error + message list) \<times> state" where
  "question_assistant env question site threadId st =
     (let st1 = io (StoreGet site) st in
      case registry st site of
        None \<Rightarrow> (Inl (NoAssistantFound site), st1)
      | Some assistant_id \<Rightarrow>
          (case get_or_create_thread env threadId st1 of
             (Inl e, st2) \<Rightarrow> (Inl e, st2)
           | (Inr thread, st2) \<Rightarrow>
               (let st3 = io (MessagesCreate thread question) st2 in
                case messages_create env (trace st2) thread question of
                  Inl e \<Rightarrow> (Inl e, st3)
                | Inr u \<Rightarrow>
                    (let st4 = io (RunsCreate thread assistant_id) st3 in
                     case runs_create env (trace st3) thread assistant_id of
                       Inl e \<Rightarrow> (Inl e, st4)
                     | Inr r \<Rightarrow>
                         (if run_status r \<noteq> ''completed'' then
                            (Inl (RunNotCompleted (run_status r) (last_error r)), st4)
                          else
                            (let st5 = io (MessagesList (thread_id r)) st4 in
                             case messages_list env (trace st4) (thread_id r) of
                               Inl e \<Rightarrow> (Inl e, st5)
                             | Inr ms \<Rightarrow> (Inr ms, st5)))))))"


section \<open>Notions the statements use\<close>

text \<open>The number of elements of the given tag names in a forest, counted on the tree.\<close>

fun count_tags :: "string list \<Rightarrow> node list \<Rightarrow> nat" where
  "count_tags tags [] = 0"
| "count_tags tags (Element t cs # ns) =
     (if t \<in> set tags then 1 else 0) + count_tags tags cs + count_tags tags ns"
| "count_tags tags (Text s # ns) = count_tags tags ns"
| "count_tags tags (Comment s # ns) = count_tags tags ns"

text \<open>
  The text contents of the elements of the given tag names in a forest, read off the
  tree in document order: an element before its descendants, siblings left to right.
\<close>

fun texts_of :: "string list \<Rightarrow> node list \<Rightarrow> string list" where
  "texts_of tags [] = []"
| "texts_of tags (Element t cs # ns) =
     (if t \<in> set tags then [textContent (Element t cs)] else []) @ texts_of tags cs
       @ texts_of tags ns"
| "texts_of tags (Text s # ns) = texts_of tags ns"
| "texts_of tags (Comment s # ns) = texts_of tags ns"

text \<open>
  The tail boundary \<open>lastElement\<close> of a list of headings, and the boundary
  \<open>nextElement\<close> of the heading at index \<open>i\<close>, as lines 42-43 and 49 compute them.
\<close>

definition lastElement_of :: "document \<Rightarrow> ref list \<Rightarrow> ref" where
  "lastElement_of doc hs =
     parentElement_nextElementSibling doc (if hs = [] then Undefined else last hs)"

definition nextElement_of :: "ref list \<Rightarrow> ref \<Rightarrow> nat \<Rightarrow> ref" where
  "nextElement_of hs lastElement i = (if Suc i < length hs then hs ! Suc i else lastElement)"

text \<open>
  The walk of \<open>getElementsBetween\<close> from the node at path \<open>p\<close> meets the boundary
  \<open>b\<close> before any other element, or meets no element at all: the node is the boundary;
  or its next element sibling is the boundary; or it has no next element sibling and the
  same holds of its parent; the \<open>Document\<close> node ends the walk.
\<close>

function boundary_met_first :: "document \<Rightarrow> path \<Rightarrow> ref \<Rightarrow> bool" where
  "boundary_met_first doc p b =
     (if p = [] then True
      else Node p = b \<or>
        (case nextElementSibling doc (Node p) of
           Inl e \<Rightarrow> False
         | Inr Undefined \<Rightarrow> False
         | Inr (Node q) \<Rightarrow> Node q = b
         | Inr Null \<Rightarrow> boundary_met_first doc (butlast p) b))"
  by pat_completeness auto
termination
  by (relation "measure (\<lambda>(doc, p, b). length p)") auto

definition walk_collects_nothing :: "document \<Rightarrow> ref \<Rightarrow> ref \<Rightarrow> bool" where
  "walk_collects_nothing doc h b =
     (case h of Node p \<Rightarrow> boundary_met_first doc p b | Null \<Rightarrow> True | Undefined \<Rightarrow> True)"

text \<open>
  The content of a page in document order, as the spec's sentence about adjacent headings
  reads it: a heading element (with its path), or a piece of other content, which is a
  non-empty text or an element without children; an element that only wraps other nodes
  is no content of its own.
\<close>

datatype item = Heading path | Content

fun content_items :: "string list \<Rightarrow> path \<Rightarrow> nat \<Rightarrow> node list \<Rightarrow> item list" where
  "content_items tags p i [] = []"
| "content_items tags p i (Element t cs # ns) =
     (if t \<in> set tags then [Heading (p @ [i])]
      else if cs = [] then [Content]
      else content_items tags (p @ [i]) 0 cs)
     @ content_items tags p (Suc i) ns"
| "content_items tags p i (Text s # ns) =
     (if s = [] then [] else [Content]) @ content_items tags p (Suc i) ns"
| "content_items tags p i (Comment s # ns) = content_items tags p (Suc i) ns"

text \<open>
  The entries of \<open>parsed.urlset.url\<close> when the parsed sitemap has that array and none of
  its entries is \<open>null\<close> or \<open>undefined\<close>; whether the parsed sitemap has no \<open>urlset\<close>
  member at all; and the \<open>loc\<close> member of an entry, \<open>undefined\<close> when it has none.
\<close>

definition url_entries :: "jsval \<Rightarrow> jsval list option" where
  "url_entries parsed =
     (case get_prop parsed ''urlset'' of
        Inl e \<Rightarrow> None
      | Inr urlset \<Rightarrow>
          (case get_prop urlset ''url'' of
             Inl e \<Rightarrow> None
           | Inr (JArray xs) \<Rightarrow>
               (if list_all (\<lambda>x. x \<noteq> JUndefined \<and> x \<noteq> JNull) xs then Some xs else None)
           | Inr JUndefined \<Rightarrow> None
           | Inr JNull \<Rightarrow> None
           | Inr (JBool b) \<Rightarrow> None
           | Inr (JNumber n) \<Rightarrow> None
           | Inr (JString s) \<Rightarrow> None
           | Inr (JObject kvs) \<Rightarrow> None))"

definition no_urlset :: "jsval \<Rightarrow> bool" where
  "no_urlset parsed =
     (case get_prop parsed ''urlset'' of
        Inl e \<Rightarrow> True
      | Inr JUndefined \<Rightarrow> True
      | Inr JNull \<Rightarrow> True
      | Inr (JBool b) \<Rightarrow> False
      | Inr (JNumber n) \<Rightarrow> False
      | Inr (JString s) \<Rightarrow> False
      | Inr (JArray xs) \<Rightarrow> False
      | Inr (JObject kvs) \<Rightarrow> False)"

definition loc_member :: "jsval \<Rightarrow> jsval" where
  "loc_member x =
     (case x of
        JObject kvs \<Rightarrow> (case map_of kvs ''loc'' of None \<Rightarrow> JUndefined | Some v \<Rightarrow> v)
      | JUndefined \<Rightarrow> JUndefined
      | JNull \<Rightarrow> JUndefined
      | JBool b \<Rightarrow> JUndefined
      | JNumber n \<Rightarrow> JUndefined
      | JString s \<Rightarrow> JUndefined
      | JArray xs \<Rightarrow> JUndefined)"

text \<open>
  The outcome of the run of process-single-url on one URL, as the loop of lines 116-126
  reads it: the entry pushed to \<open>pages\<close> when the result is \<open>ok\<close>, and whether the
  run failed.
\<close>

definition page_of :: "env \<Rightarrow> string \<Rightarrow> page_entry option" where
  "page_of env u =
     (case process_single_url env u of
        None \<Rightarrow> None
      | Some (Inl e) \<Rightarrow> None
      | Some (Inr output_page) \<Rightarrow> Some \<lparr>url = JString u, page = output_page\<rparr>)"

definition job_failed :: "env \<Rightarrow> string \<Rightarrow> bool" where
  "job_failed env u =
     (case process_single_url env u of
        None \<Rightarrow> False
      | Some (Inl e) \<Rightarrow> True
      | Some (Inr output_page) \<Rightarrow> False)"

text \<open>The first lines of a page text: the rule and the header with the source URL.\<close>

definition page_header :: "string \<Rightarrow> string" where
  "page_header u = newline @ indent @ dashes @ newline @ indent @ ''url: '' @ u @ newline"

text \<open>What one round of the loop of lines 116-126 adds for a URL and its result.\<close>

definition push_ok :: "jsval \<times> (error + string) \<Rightarrow> page_entry option" where
  "push_ok p = (case snd p of Inl e \<Rightarrow> None | Inr pg \<Rightarrow> Some \<lparr>url = fst p, page = pg\<rparr>)"

section \<open>Example inputs\<close>

text \<open>
  A page with two headings in a \<open>div\<close>, a paragraph after them, and a \<open>footer\<close> after
  the \<open>div\<close>.
\<close>

definition example_page :: document where
  "example_page =
     [Element ''html''
        [Element ''head'' [Element ''title'' [Text ''T'']],
         Element ''body''
           [Element ''div''
              [Element ''h1'' [Text ''A''], Element ''h2'' [Text ''B''],
               Element ''p'' [Text ''x'']],
            Element ''footer'' [Text ''F'']]]]"

text \<open>
  A page whose last heading is the last element of its \<open>div\<close>, with a \<open>footer\<close> after
  the \<open>div\<close>.
\<close>

definition example_tail_page :: document where
  "example_tail_page =
     [Element ''html''
        [Element ''head'' [],
         Element ''body''
           [Element ''div''
              [Element ''h1'' [Text ''A''], Element ''p'' [Text ''x''],
               Element ''h2'' [Text ''B''], Text ''y''],
            Element ''footer'' [Text ''F'']]]]"

text \<open>
  A page whose second heading is the first thing after the first heading, inside a
  \<open>div\<close>; nothing follows the \<open>div\<close>.
\<close>

definition example_nested_page :: document where
  "example_nested_page =
     [Element ''html''
        [Element ''head'' [Element ''title'' [Text ''T'']],
         Element ''body''
           [Element ''h1'' [Text ''A''], Element ''div'' [Element ''h2'' [Text ''B'']]]]]"

text \<open>An error page.\<close>

definition example_error_page :: document where
  "example_error_page =
     [Element ''html'' [Element ''head'' [], Element ''body'' [Text ''Not Found'']]]"

text \<open>A page without headings, with a \<open>style\<close> element in its head.\<close>

definition example_plain_page :: document where
  "example_plain_page =
     [Element ''html''
        [Element ''head'' [Element ''style'' [Text ''p {}'']],
         Element ''body'' [Element ''p'' [Text ''no headings'']]]]"

text \<open>
  A world of six sites. The sitemap of \<open>docs.example.com\<close> lists three pages, of which
  \<open>/b\<close> cannot be fetched; \<open>stale.example.com\<close> answers the request for its sitemap
  with status 404 and a sitemap as the body; \<open>gone.example.com\<close> answers with status
  404 and an error page; the entries of the sitemap of \<open>noloc.example.com\<close> have no
  \<open>loc\<close>; no page of \<open>down.example.com\<close> can be fetched; the page \<open>/old\<close> of
  \<open>moved.example.com\<close> is answered with status 404 and an error page. Every other
  request fails.
\<close>

definition sitemap_xml :: string where
  "sitemap_xml =
     ''<urlset><url><loc>https://docs.example.com/a</loc></url>''
     @ ''<url><loc>https://docs.example.com/b</loc></url>''
     @ ''<url><loc>https://docs.example.com/c</loc></url></urlset>''"

definition noloc_sitemap_xml :: string where
  "noloc_sitemap_xml =
     ''<urlset><url><lastmod>2023</lastmod></url><url><lastmod>2024</lastmod></url></urlset>''"

definition down_sitemap_xml :: string where
  "down_sitemap_xml =
     ''<urlset><url><loc>https://down.example.com/a</loc></url>''
     @ ''<url><loc>https://down.example.com/b</loc></url></urlset>''"

definition moved_sitemap_xml :: string where
  "moved_sitemap_xml =
     ''<urlset><url><loc>https://moved.example.com/old</loc></url>''
     @ ''<url><loc>https://moved.example.com/new</loc></url></urlset>''"

definition error_page_html :: string where
  "error_page_html = ''<html><body>Not Found</body></html>''"

definition page_a_html :: string where
  "page_a_html =
     ''<html><head><title>T</title></head><body><div><h1>A</h1><h2>B</h2><p>x</p></div>''
     @ ''<footer>F</footer></body></html>''"

definition page_c_html :: string where
  "page_c_html =
     ''<html><head><style>p {}</style></head><body><p>no headings</p></body></html>''"

definition example_fetch :: "string \<Rightarrow> response option" where
  "example_fetch u =
     (if u = ''https://docs.example.com/sitemap.xml'' then Some \<lparr>status = 200, body = sitemap_xml\<rparr>
      else if u = ''https://docs.example.com/a'' then Some \<lparr>status = 200, body = page_a_html\<rparr>
      else if u = ''https://docs.example.com/c'' then Some \<lparr>status = 200, body = page_c_html\<rparr>
      else if u = ''https://stale.example.com/sitemap.xml'' then
        Some \<lparr>status = 404, body = sitemap_xml\<rparr>
      else if u = ''https://gone.example.com/sitemap.xml'' then
        Some \<lparr>status = 404, body = error_page_html\<rparr>
      else if u = ''https://noloc.example.com/sitemap.xml'' then
        Some \<lparr>status = 200, body = noloc_sitemap_xml\<rparr>
      else if u = ''https://down.example.com/sitemap.xml'' then
        Some \<lparr>status = 200, body = down_sitemap_xml\<rparr>
      else if u = ''https://moved.example.com/sitemap.xml'' then
        Some \<lparr>status = 200, body = moved_sitemap_xml\<rparr>
      else if u = ''https://moved.example.com/old'' then
        Some \<lparr>status = 404, body = error_page_html\<rparr>
      else if u = ''https://moved.example.com/new'' then
        Some \<lparr>status = 200, body = page_c_html\<rparr>
      else None)"

text \<open>What the XML parser makes of these texts.\<close>

definition example_xml_parse :: "string \<Rightarrow> jsval" where
  "example_xml_parse xml =
     (if xml = sitemap_xml then
        JObject [(''urlset'', JObject [(''url'',
          JArray [JObject [(''loc'', JString ''https://docs.example.com/a'')],
                  JObject [(''loc'', JString ''https://docs.example.com/b'')],
                  JObject [(''loc'', JString ''https://docs.example.com/c'')]])])]
      else if xml = noloc_sitemap_xml then
        JObject [(''urlset'', JObject [(''url'',
          JArray [JObject [(''lastmod'', JNumber 2023)], JObject [(''lastmod'', JNumber 2024)]])])]
      else if xml = down_sitemap_xml then
        JObject [(''urlset'', JObject [(''url'',
          JArray [JObject [(''loc'', JString ''https://down.example.com/a'')],
                  JObject [(''loc'', JString ''https://down.example.com/b'')]])])]
      else if xml = moved_sitemap_xml then
        JObject [(''urlset'', JObject [(''url'',
          JArray [JObject [(''loc'', JString ''https://moved.example.com/old'')],
                  JObject [(''loc'', JString ''https://moved.example.com/new'')]])])]
      else JObject [(''html'', JObject [(''body'', JString ''Not Found'')])])"

text \<open>What JSDOM makes of the pages.\<close>

definition example_jsdom :: "string \<Rightarrow> document" where
  "example_jsdom html =
     (if html = page_a_html then example_page
      else if html = error_page_html then example_error_page
      else example_plain_page)"

definition example_env :: env where
  "example_env =
     \<lparr>fetch = example_fetch,
      xml_parse = example_xml_parse,
      jsdom = example_jsdom,
      is_url = (\<lambda>u. take 8 u = ''https://''),
      files_create = (\<lambda>calls text. Inr (if calls = [] then ''file-1'' else ''file-2'')),
      assistants_create = (\<lambda>calls site file_ids. Inr ''asst-1''),
      assistants_update = (\<lambda>calls assistant_id file_ids. Inr ()),
      assistants_del = (\<lambda>calls assistant_id. Inr ()),
      threads_retrieve = (\<lambda>calls t. Inr t),
      threads_create = (\<lambda>calls. Inr ''thread-1''),
      messages_create = (\<lambda>calls t text. Inr ()),
      runs_create = (\<lambda>calls t assistant_id.
        Inr \<lparr>run_status = ''completed'', thread_id = t, last_error = []\<rparr>),
      messages_list = (\<lambda>calls t. Inr [''answer'', ''question''])\<rparr>"

definition empty_state :: state where
  "empty_state = \<lparr>registry = Map.empty, trace = []\<rparr>"


section \<open>Termination of the walk\<close>

declare getElementsBetween_loop.simps [code]

lemma nextElementSibling_later:
  assumes "nextElementSibling doc c = Inr c1" "truthy c1"
  shows "later_siblings doc c1 < later_siblings doc c"
proof -
  from assms obtain p where c: "c = Node p"
    by (cases c) (auto simp: nextElementSibling_def)
  with assms have p: "p \<noteq> []"
    by (auto simp: nextElementSibling_def split: if_splits)
  let ?sibs = "children_at doc (butlast p)"
  from assms c p obtain j where
    f: "find (\<lambda>j. is_element (?sibs ! j)) [Suc (last p) ..< length ?sibs] = Some j"
    and c1: "c1 = Node (butlast p @ [j])"
    by (auto simp: nextElementSibling_def Let_def split: option.splits)
  from f have "j \<in> set [Suc (last p) ..< length ?sibs]"
    by (auto simp: find_Some_iff)
  then have "last p < j" "j < length ?sibs" by auto
  with c c1 p show ?thesis by simp
qed

lemma parentNode_depth:
  assumes "parentNode doc s = Inr c2"
  shows "depth c2 < depth s"
  using assms by (cases s) (auto simp: parentNode_def split: if_splits)

lemma nextElementSibling_depth:
  assumes "nextElementSibling doc c = Inr c1" "truthy c1"
  shows "depth c1 = depth c"
  using assms
  by (cases c) (auto simp: nextElementSibling_def Let_def split: if_splits option.splits)

lemma nextElementSibling_Inl: "nextElementSibling doc c = Inl e \<Longrightarrow> \<not> truthy c"
  by (cases c) (auto simp: nextElementSibling_def Let_def split: if_splits option.splits)

lemma parentNode_Inl: "parentNode doc s = Inl e \<Longrightarrow> \<not> truthy s"
  by (cases s) (auto simp: parentNode_def split: if_splits)

lemma getElementsBetween_loop_returns:
  "\<exists>r. getElementsBetween_loop doc e c s els = Some r"
proof (induction "depth s" arbitrary: c s els rule: less_induct)
  case less
  note outer = less.hyps
  show ?case
  proof (induction "later_siblings doc c" arbitrary: c els rule: less_induct)
    case less
    note inner = less.hyps
    show ?case
    proof (cases "truthy c \<and> c \<noteq> e")
      case False
      then show ?thesis by (subst getElementsBetween_loop.simps) auto
    next
      case True
      show ?thesis
      proof (cases "nextElementSibling doc c")
        case (Inl err)
        with True show ?thesis by (subst getElementsBetween_loop.simps) auto
      next
        case (Inr c1)
        show ?thesis
        proof (cases "truthy c1")
          case t: True
          from nextElementSibling_later[OF Inr t] inner[of c1]
          have "\<And>els'. \<exists>r. getElementsBetween_loop doc e c1 s els' = Some r" by blast
          with True Inr t show ?thesis
            by (subst getElementsBetween_loop.simps) auto
        next
          case f: False
          show ?thesis
          proof (cases "parentNode doc s")
            case (Inl err)
            with True Inr f show ?thesis by (subst getElementsBetween_loop.simps) auto
          next
            case pn: (Inr c2)
            from parentNode_depth[OF pn] outer[of c2 c2]
            have "\<And>els'. \<exists>r. getElementsBetween_loop doc e c2 c2 els' = Some r" by blast
            with True Inr f pn show ?thesis
              by (subst getElementsBetween_loop.simps) auto
          qed
        qed
      qed
    qed
  qed
qed

lemma getElementsBetween_loop_no_error:
  "truthy c \<longrightarrow> truthy s \<Longrightarrow> getElementsBetween_loop doc e c s els \<noteq> Some (Inl err)"
proof (induction "depth s" arbitrary: c s els rule: less_induct)
  case less
  note outer = less.hyps and inv0 = less.prems
  from inv0 show ?case
  proof (induction "later_siblings doc c" arbitrary: c els rule: less_induct)
    case less
    note inner = less.hyps and inv = less.prems
    show ?case
    proof (cases "truthy c \<and> c \<noteq> e")
      case False
      then show ?thesis by (subst getElementsBetween_loop.simps) auto
    next
      case True
      with inv have ts: "truthy s" by simp
      show ?thesis
      proof (cases "nextElementSibling doc c")
        case (Inl x)
        with True nextElementSibling_Inl show ?thesis by blast
      next
        case (Inr c1)
        show ?thesis
        proof (cases "truthy c1")
          case t: True
          from nextElementSibling_later[OF Inr t] inner[of c1] ts
          have "\<And>els'. getElementsBetween_loop doc e c1 s els' \<noteq> Some (Inl err)" by blast
          with True Inr t show ?thesis
            by (subst getElementsBetween_loop.simps) auto
        next
          case f: False
          show ?thesis
          proof (cases "parentNode doc s")
            case (Inl x)
            with ts parentNode_Inl show ?thesis by blast
          next
            case pn: (Inr c2)
            from parentNode_depth[OF pn] outer[of c2 c2]
            have "\<And>els'. getElementsBetween_loop doc e c2 c2 els' \<noteq> Some (Inl err)" by blast
            with True Inr f pn show ?thesis
              by (subst getElementsBetween_loop.simps) auto
          qed
        qed
      qed
    qed
  qed
qed

lemma getElementsBetween_returns:
  "\<exists>els. getElementsBetween doc startElement endElement = Some (Inr els)"
proof -
  obtain r where r: "getElementsBetween_loop doc endElement startElement startElement [] = Some r"
    using getElementsBetween_loop_returns by blast
  have "r \<noteq> Inl err" for err
    using getElementsBetween_loop_no_error[of startElement startElement doc endElement "[]" err] r
    by auto
  then obtain els where "r = Inr els" by (cases r) auto
  with r show ?thesis by (simp add: getElementsBetween_def)
qed


text \<open>
  C5. For every document tree and every start and boundary reference (a boundary that is
  \<open>null\<close>, \<open>undefined\<close> or never reached included), \<open>getElementsBetween\<close> returns,
  and returns a list rather than an error; the loop returns from every state of its
  variables. Each ascension moves to a node strictly nearer to the \<open>Document\<close> node,
  each step to a sibling stays at the same depth and leaves fewer later siblings; at the
  \<open>Document\<close> node, which has no parent, and at a \<open>null\<close> cursor the loop returns what
  it has collected.
\<close>

theorem getElementsBetween_terminates:
  "(\<exists>els. getElementsBetween doc startElement endElement = Some (Inr els))
   \<and> (\<exists>r. getElementsBetween_loop doc endElement c s els0 = Some r)
   \<and> (\<forall>c2. parentNode doc s = Inr c2 \<longrightarrow> depth c2 < depth s)
   \<and> (\<forall>c1. nextElementSibling doc c = Inr c1 \<and> truthy c1 \<longrightarrow>
          depth c1 = depth c \<and> later_siblings doc c1 < later_siblings doc c)
   \<and> getElementsBetween_loop doc endElement (Node []) (Node []) els0 = Some (Inr els0)
   \<and> getElementsBetween_loop doc endElement Null s els0 = Some (Inr els0)"
proof -
  have at_document:
    "getElementsBetween_loop doc endElement (Node []) (Node []) els0 = Some (Inr els0)"
    apply (subst getElementsBetween_loop.simps)
    apply (simp add: nextElementSibling_def parentNode_def)
    apply (subst getElementsBetween_loop.simps)
    apply simp
    done
  have at_null: "getElementsBetween_loop doc endElement Null s els0 = Some (Inr els0)"
    by (subst getElementsBetween_loop.simps) simp
  from getElementsBetween_returns getElementsBetween_loop_returns at_document at_null
    parentNode_depth nextElementSibling_depth nextElementSibling_later
  show ?thesis by blast
qed

theorem getElementsBetween_terminates_witness:
  "getElementsBetween example_page (Node [0, 1, 0, 1]) Null
     = Some (Inr [Node [0, 1, 0, 2], Node [0, 1, 1]])
   \<and> getElementsBetween example_page (Node [0, 1, 0, 1]) (Node [0, 0, 0]) \<noteq> None"
proof -
  have "getElementsBetween example_page (Node [0, 1, 0, 1]) Null
          = Some (Inr [Node [0, 1, 0, 2], Node [0, 1, 1]])"
    by code_simp
  moreover from getElementsBetween_terminates [of example_page "Node [0, 1, 0, 1]" "Node [0, 0, 0]",
      THEN conjunct1]
  have "getElementsBetween example_page (Node [0, 1, 0, 1]) (Node [0, 0, 0]) \<noteq> None"
    by (elim exE) simp
  ultimately show ?thesis by simp
qed

section \<open>The sections of a page\<close>

lemma length_select_in: "length (select_in tags p i ns) = count_tags tags ns"
  by (induction tags p i ns rule: select_in.induct) auto

lemma heading_loop_result:
  "\<exists>secs. heading_loop doc hs le i acc = Some (Inr (acc @ secs))
     \<and> length secs = length hs - i
     \<and> (\<forall>k < length secs.
          title (secs ! k) = textContent_of doc (hs ! (i + k))
          \<and> (\<forall>els. getElementsBetween doc (hs ! (i + k)) (nextElement_of hs le (i + k)) = Some (Inr els)
                \<longrightarrow> content (secs ! k) = join newline (map (textContent_of doc) els)))"
proof (induction doc hs le i acc rule: heading_loop.induct)
  case (1 doc hs le i acc)
  show ?case
  proof (cases "i < length hs")
    case False
    then show ?thesis by (subst heading_loop.simps) simp
  next
    case True
    obtain els where els: "getElementsBetween doc (hs ! i) (nextElement_of hs le i) = Some (Inr els)"
      using getElementsBetween_returns by blast
    let ?s = "\<lparr>title = textContent_of doc (hs ! i),
               content = join newline (map (textContent_of doc) els)\<rparr>"
    from els have els': "getElementsBetween doc (hs ! i) (if Suc i < length hs then hs ! Suc i else le) = Some (Inr els)"
      by (simp add: nextElement_of_def)
    from "1.IH"[OF True refl refl els' refl]
    obtain secs where secs: "heading_loop doc hs le (Suc i) (acc @ [?s]) = Some (Inr ((acc @ [?s]) @ secs))"
      "length secs = length hs - Suc i"
      "\<forall>k < length secs.
          title (secs ! k) = textContent_of doc (hs ! (Suc i + k))
          \<and> (\<forall>els. getElementsBetween doc (hs ! (Suc i + k)) (nextElement_of hs le (Suc i + k)) = Some (Inr els)
                \<longrightarrow> content (secs ! k) = join newline (map (textContent_of doc) els))"
      by auto
    have run: "heading_loop doc hs le i acc = Some (Inr (acc @ (?s # secs)))"
      using True els' secs(1) by (subst heading_loop.simps) (simp add: Let_def)
    have len: "length (?s # secs) = length hs - i" using True secs(2) by simp
    have each: "title ((?s # secs) ! k) = textContent_of doc (hs ! (i + k))
          \<and> (\<forall>els. getElementsBetween doc (hs ! (i + k)) (nextElement_of hs le (i + k)) = Some (Inr els)
                \<longrightarrow> content ((?s # secs) ! k) = join newline (map (textContent_of doc) els))"
      if "k < length (?s # secs)" for k
    proof (cases k)
      case 0
      with els show ?thesis by simp
    next
      case (Suc k')
      with that have "k' < length secs" by simp
      with secs(3) Suc show ?thesis by simp
    qed
    from run len each show ?thesis by blast
  qed
qed


lemma segment_result:
  "\<exists>secs. segment doc = Some (Inr secs)
     \<and> length secs = length (querySelectorAll doc heading_tags)
     \<and> (\<forall>k < length secs.
          title (secs ! k) = textContent_of doc (querySelectorAll doc heading_tags ! k)
          \<and> (\<forall>els. getElementsBetween doc (querySelectorAll doc heading_tags ! k)
                  (nextElement_of (querySelectorAll doc heading_tags)
                     (lastElement_of doc (querySelectorAll doc heading_tags)) k) = Some (Inr els)
                \<longrightarrow> content (secs ! k) = join newline (map (textContent_of doc) els)))"
  using heading_loop_result[of doc "querySelectorAll doc heading_tags"
      "lastElement_of doc (querySelectorAll doc heading_tags)" 0 "[]"]
  by (simp add: segment_def Let_def lastElement_of_def)

lemma node_at_snoc:
  "node_at doc (p @ [i]) =
     (if i < length (children_at doc p) then Some (children_at doc p ! i) else None)"
proof (induction doc p rule: node_at.induct)
  case (1 cs)
  then show ?case by (simp add: children_at_def)
next
  case (2 cs j)
  then show ?case by (simp add: children_at_def)
next
  case (3 cs j k p)
  then show ?case by (simp add: children_at_def)
qed

lemma children_at_snoc:
  assumes "i < length (children_at doc p)"
  shows "children_at doc (p @ [i]) = childNodes (children_at doc p ! i)"
  using assms by (simp add: children_at_def[of doc "p @ [i]"] node_at_snoc)

lemma select_in_texts:
  "children_at doc p = pre @ ns \<Longrightarrow> length pre = i \<Longrightarrow>
   map (textContent_of doc) (map Node (select_in tags p i ns)) = texts_of tags ns"
proof (induction tags p i ns arbitrary: pre rule: select_in.induct)
  case (1 tags p i)
  then show ?case by simp
next
  case (2 tags p i t cs ns)
  from "2.prems" have i: "i < length (children_at doc p)" and
    at: "children_at doc p ! i = Element t cs" by (auto simp: nth_append)
  have n: "node_at doc (p @ [i]) = Some (Element t cs)"
    using i at by (simp add: node_at_snoc)
  have c: "children_at doc (p @ [i]) = [] @ cs"
    using children_at_snoc[OF i] at by simp
  have r: "children_at doc p = (pre @ [Element t cs]) @ ns" "length (pre @ [Element t cs]) = Suc i"
    using "2.prems" by auto
  from "2.IH"(1)[OF c] "2.IH"(2)[OF r] n show ?case
    by (simp add: textContent_of_def)
next
  case (3 tags p i s ns)
  have r: "children_at doc p = (pre @ [Text s]) @ ns" "length (pre @ [Text s]) = Suc i"
    using "3.prems" by auto
  from "3.IH"[OF r] show ?case by simp
next
  case (4 tags p i s ns)
  have r: "children_at doc p = (pre @ [Comment s]) @ ns" "length (pre @ [Comment s]) = Suc i"
    using "4.prems" by auto
  from "4.IH"[OF r] show ?case by simp
qed

lemma querySelectorAll_texts:
  "map (textContent_of doc) (querySelectorAll doc tags) = texts_of tags doc"
  using select_in_texts[of doc "[]" "[]" doc 0 tags]
  by (simp add: querySelectorAll_def children_at_def)

text \<open>
  C4. For every document tree, \<open>segment\<close> returns, without error, exactly one section
  per heading element of the tree (as many as the tree has elements of the six heading
  tags), in the order in which \<open>querySelectorAll\<close> lists the headings, and the titles of
  the sections are the text contents of the heading elements of the tree in document
  order.
\<close>

theorem segment_one_section_per_heading:
  "\<exists>secs. segment doc = Some (Inr secs)
     \<and> length secs = count_tags heading_tags doc
     \<and> length secs = length (querySelectorAll doc heading_tags)
     \<and> map title secs = map (textContent_of doc) (querySelectorAll doc heading_tags)
     \<and> map title secs = texts_of heading_tags doc"
proof -
  from segment_result[of doc] obtain secs where
    s: "segment doc = Some (Inr secs)"
    and l: "length secs = length (querySelectorAll doc heading_tags)"
    and t: "\<forall>k < length secs.
          title (secs ! k) = textContent_of doc (querySelectorAll doc heading_tags ! k)"
    by blast
  have c: "length secs = count_tags heading_tags doc"
    using l by (simp add: querySelectorAll_def length_select_in)
  have m: "map title secs = map (textContent_of doc) (querySelectorAll doc heading_tags)"
    using l t by (intro nth_equalityI) auto
  then have "map title secs = texts_of heading_tags doc"
    by (simp only: querySelectorAll_texts)
  with s l c m show ?thesis by blast
qed

theorem segment_one_section_per_heading_witness:
  "segment example_page
     = Some (Inr [\<lparr>title = ''A'', content = []\<rparr>, \<lparr>title = ''B'', content = ''x''\<rparr>])
   \<and> count_tags heading_tags example_page = 2
   \<and> texts_of heading_tags example_page = [''A'', ''B'']"
proof -
  have v: "segment example_page
     = Some (Inr [\<lparr>title = ''A'', content = []\<rparr>, \<lparr>title = ''B'', content = ''x''\<rparr>])"
    by code_simp
  from segment_one_section_per_heading [of example_page] obtain secs where
    s: "segment example_page = Some (Inr secs)"
    and c: "length secs = count_tags heading_tags example_page"
    and t: "map title secs = texts_of heading_tags example_page"
    by blast
  from s v have e: "secs = [\<lparr>title = ''A'', content = []\<rparr>, \<lparr>title = ''B'', content = ''x''\<rparr>]"
    by simp
  have "count_tags heading_tags example_page = 2"
    using c [symmetric] unfolding e by simp
  moreover have "texts_of heading_tags example_page = [''A'', ''B'']"
    using t [symmetric] unfolding e by simp
  ultimately show ?thesis using v by blast
qed

section \<open>Sections without content\<close>

declare boundary_met_first.simps [simp del]

lemma loop_at_boundary: "getElementsBetween_loop doc b b s els = Some (Inr els)"
  by (subst getElementsBetween_loop.simps) simp

lemma loop_at_document:
  "getElementsBetween_loop doc b (Node []) (Node []) els = Some (Inr els)"
  apply (subst getElementsBetween_loop.simps)
  apply (simp add: nextElementSibling_def parentNode_def)
  apply (subst getElementsBetween_loop.simps)
  apply simp
  done

lemma nextElementSibling_of_node:
  "p \<noteq> [] \<Longrightarrow> nextElementSibling doc (Node p) = Inr Null \<or> (\<exists>q. nextElementSibling doc (Node p) = Inr (Node q))"
  by (auto simp: nextElementSibling_def Let_def split: option.splits)

lemma loop_step_sibling:
  assumes "Node p \<noteq> b" "nextElementSibling doc (Node p) = Inr (Node q)"
  shows "getElementsBetween_loop doc b (Node p) s els =
           getElementsBetween_loop doc b (Node q) s (if Node q = b then els else els @ [Node q])"
  using assms by (subst getElementsBetween_loop.simps) simp

lemma loop_step_ascend:
  assumes "Node p \<noteq> b" "p \<noteq> []" "nextElementSibling doc (Node p) = Inr Null"
  shows "getElementsBetween_loop doc b (Node p) (Node p) els =
           (if Node (butlast p) = b then Some (Inr els)
            else getElementsBetween_loop doc b (Node (butlast p)) (Node (butlast p)) els)"
  using assms by (subst getElementsBetween_loop.simps) (simp add: parentNode_def)

lemma boundary_met_first_loop:
  "boundary_met_first doc p b \<Longrightarrow>
   getElementsBetween_loop doc b (Node p) (Node p) els = Some (Inr els)"
proof (induction doc p b rule: boundary_met_first.induct)
  case (1 doc p b)
  show ?case
  proof (cases "p = [] \<or> Node p = b")
    case True
    then show ?thesis using loop_at_document loop_at_boundary by auto
  next
    case False
    then have p: "p \<noteq> []" and nb: "Node p \<noteq> b" by auto
    from nextElementSibling_of_node[OF p, of doc] show ?thesis
    proof
      assume n: "nextElementSibling doc (Node p) = Inr Null"
      with "1.prems" p nb have m: "boundary_met_first doc (butlast p) b"
        by (subst (asm) boundary_met_first.simps) simp
      from "1.IH"[OF p n refl m] loop_step_ascend[OF nb p n] show ?thesis by simp
    next
      assume "\<exists>q. nextElementSibling doc (Node p) = Inr (Node q)"
      then obtain q where q: "nextElementSibling doc (Node p) = Inr (Node q)" by blast
      with "1.prems" p nb have "Node q = b"
        by (subst (asm) boundary_met_first.simps) simp
      with loop_step_sibling[OF nb q] loop_at_boundary show ?thesis by simp
    qed
  qed
qed

lemma loop_extends:
  "getElementsBetween_loop doc e c s els = Some (Inr r) \<Longrightarrow> length els \<le> length r"
proof (induction "depth s" arbitrary: c s els rule: less_induct)
  case less
  note outer = less.hyps and res0 = less.prems
  from res0 show ?case
  proof (induction "later_siblings doc c" arbitrary: c els rule: less_induct)
    case less
    note inner = less.hyps and res = less.prems
    show ?case
    proof (cases "truthy c \<and> c \<noteq> e")
      case False
      with res show ?thesis by (subst (asm) getElementsBetween_loop.simps) auto
    next
      case True
      show ?thesis
      proof (cases "nextElementSibling doc c")
        case (Inl x)
        with True res show ?thesis by (subst (asm) getElementsBetween_loop.simps) auto
      next
        case (Inr c1)
        show ?thesis
        proof (cases "truthy c1")
          case t: True
          from nextElementSibling_later[OF Inr t] inner[of c1]
          have ih: "\<And>els'. getElementsBetween_loop doc e c1 s els' = Some (Inr r)
                      \<Longrightarrow> length els' \<le> length r" by blast
          from True Inr t res
          have "getElementsBetween_loop doc e c1 s (if c1 \<noteq> e then els @ [c1] else els) = Some (Inr r)"
            by (subst (asm) getElementsBetween_loop.simps) (auto split: if_splits)
          from ih[OF this] show ?thesis by (auto split: if_splits)
        next
          case f: False
          show ?thesis
          proof (cases "parentNode doc s")
            case (Inl x)
            with True Inr f res show ?thesis
              by (subst (asm) getElementsBetween_loop.simps) auto
          next
            case pn: (Inr c2)
            from parentNode_depth[OF pn] outer[of c2 c2]
            have ih: "\<And>els'. getElementsBetween_loop doc e c2 c2 els' = Some (Inr r)
                      \<Longrightarrow> length els' \<le> length r" by blast
            from True Inr f pn res
            have "c2 = e \<and> r = els \<or> getElementsBetween_loop doc e c2 c2 els = Some (Inr r)"
              by (subst (asm) getElementsBetween_loop.simps) (auto split: if_splits)
            with ih show ?thesis by auto
          qed
        qed
      qed
    qed
  qed
qed

lemma not_met_first_loop:
  "\<not> boundary_met_first doc p b \<Longrightarrow>
   getElementsBetween_loop doc b (Node p) (Node p) els = Some (Inr r) \<Longrightarrow> length els < length r"
proof (induction doc p b arbitrary: els rule: boundary_met_first.induct)
  case (1 doc p b)
  from "1.prems"(1) have "p \<noteq> [] \<and> Node p \<noteq> b"
    by (subst (asm) boundary_met_first.simps) (simp split: if_splits)
  then have p: "p \<noteq> []" and nb: "Node p \<noteq> b" by simp_all
  from nextElementSibling_of_node[OF p, of doc] show ?case
  proof
    assume n: "nextElementSibling doc (Node p) = Inr Null"
    with "1.prems"(1) p nb have m: "\<not> boundary_met_first doc (butlast p) b"
      by (subst (asm) boundary_met_first.simps) simp
    then have "butlast p \<noteq> [] \<and> Node (butlast p) \<noteq> b"
      by (subst (asm) boundary_met_first.simps) (simp split: if_splits)
    with loop_step_ascend[OF nb p n, of els] "1.prems"(2)
    have "getElementsBetween_loop doc b (Node (butlast p)) (Node (butlast p)) els = Some (Inr r)"
      by simp
    from "1.IH"[OF p n refl m this] show ?thesis .
  next
    assume "\<exists>q. nextElementSibling doc (Node p) = Inr (Node q)"
    then obtain q where q: "nextElementSibling doc (Node p) = Inr (Node q)" by blast
    with "1.prems"(1) p nb have "Node q \<noteq> b"
      by (subst (asm) boundary_met_first.simps) simp
    with loop_step_sibling[OF nb q, of "Node p" els] "1.prems"(2)
    have "getElementsBetween_loop doc b (Node q) (Node p) (els @ [Node q]) = Some (Inr r)"
      by simp
    from loop_extends[OF this] show ?thesis by simp
  qed
qed

lemma getElementsBetween_nothing_iff:
  "getElementsBetween doc h b = Some (Inr []) \<longleftrightarrow> walk_collects_nothing doc h b"
proof (cases h)
  case (Node p)
  show ?thesis
  proof
    assume "getElementsBetween doc h b = Some (Inr [])"
    then have l: "getElementsBetween_loop doc b (Node p) (Node p) [] = Some (Inr [])"
      using Node by (simp add: getElementsBetween_def)
    have "boundary_met_first doc p b"
    proof (rule ccontr)
      assume "\<not> boundary_met_first doc p b"
      from not_met_first_loop[OF this l] show False by simp
    qed
    then show "walk_collects_nothing doc h b" using Node by (simp add: walk_collects_nothing_def)
  next
    assume "walk_collects_nothing doc h b"
    then have "boundary_met_first doc p b" using Node by (simp add: walk_collects_nothing_def)
    from boundary_met_first_loop[OF this, of "[]"] show "getElementsBetween doc h b = Some (Inr [])"
      using Node by (simp add: getElementsBetween_def)
  qed
next
  case Null
  have "getElementsBetween_loop doc b Null Null [] = Some (Inr [])"
    by (subst getElementsBetween_loop.simps) simp
  then show ?thesis using Null by (simp add: getElementsBetween_def walk_collects_nothing_def)
next
  case Undefined
  have "getElementsBetween_loop doc b Undefined Undefined [] = Some (Inr [])"
    by (subst getElementsBetween_loop.simps) simp
  then show ?thesis using Undefined by (simp add: getElementsBetween_def walk_collects_nothing_def)
qed

text \<open>
  C7, as amended. When the walk from the heading at index \<open>i\<close> meets the boundary of
  that heading (the next heading, or the tail boundary) before any other element, or meets
  no element at all before it ends at the \<open>Document\<close> node, \<open>segment\<close> returns without
  error and the section of that heading has the heading's text as its title and the empty
  string as its content. The walk goes from a node to its next element sibling and, where
  there is none, to its parent; it never looks inside an element. It collects no element
  exactly in the cases named.
\<close>

theorem segment_empty_content:
  assumes "i < length (querySelectorAll doc heading_tags)"
    and "walk_collects_nothing doc (querySelectorAll doc heading_tags ! i)
           (nextElement_of (querySelectorAll doc heading_tags)
              (lastElement_of doc (querySelectorAll doc heading_tags)) i)"
  shows "(\<exists>secs. segment doc = Some (Inr secs) \<and> i < length secs
            \<and> title (secs ! i) = textContent_of doc (querySelectorAll doc heading_tags ! i)
            \<and> content (secs ! i) = [])
         \<and> (\<forall>h b. getElementsBetween doc h b = Some (Inr []) \<longleftrightarrow> walk_collects_nothing doc h b)"
proof -
  from segment_result[of doc] obtain secs where
    s: "segment doc = Some (Inr secs)"
    and l: "length secs = length (querySelectorAll doc heading_tags)"
    and t: "\<forall>k < length secs.
          title (secs ! k) = textContent_of doc (querySelectorAll doc heading_tags ! k)
          \<and> (\<forall>els. getElementsBetween doc (querySelectorAll doc heading_tags ! k)
                  (nextElement_of (querySelectorAll doc heading_tags)
                     (lastElement_of doc (querySelectorAll doc heading_tags)) k) = Some (Inr els)
                \<longrightarrow> content (secs ! k) = join newline (map (textContent_of doc) els))"
    by blast
  from assms(1) l have i: "i < length secs" by simp
  from assms(2) have "getElementsBetween doc (querySelectorAll doc heading_tags ! i)
                  (nextElement_of (querySelectorAll doc heading_tags)
                     (lastElement_of doc (querySelectorAll doc heading_tags)) i) = Some (Inr [])"
    by (simp only: getElementsBetween_nothing_iff)
  with t i have "content (secs ! i) = join newline (map (textContent_of doc) [])" by blast
  then have c: "content (secs ! i) = []" by simp
  from t i have "title (secs ! i) = textContent_of doc (querySelectorAll doc heading_tags ! i)"
    by blast
  with s i c getElementsBetween_nothing_iff show ?thesis by blast
qed

theorem segment_empty_content_witness:
  "walk_collects_nothing example_tail_page
     (querySelectorAll example_tail_page heading_tags ! 1)
     (nextElement_of (querySelectorAll example_tail_page heading_tags)
        (lastElement_of example_tail_page (querySelectorAll example_tail_page heading_tags)) 1)
   \<and> segment example_tail_page
       = Some (Inr [\<lparr>title = ''A'', content = ''x''\<rparr>, \<lparr>title = ''B'', content = []\<rparr>])
   \<and> lastElement_of example_nested_page (querySelectorAll example_nested_page heading_tags)
       = Null
   \<and> walk_collects_nothing example_nested_page
     (querySelectorAll example_nested_page heading_tags ! 1)
     (nextElement_of (querySelectorAll example_nested_page heading_tags)
        (lastElement_of example_nested_page (querySelectorAll example_nested_page heading_tags)) 1)
   \<and> (\<exists>secs. segment example_nested_page = Some (Inr secs) \<and> content (secs ! 1) = [])"
proof -
  have l: "(1::nat) < length (querySelectorAll example_tail_page heading_tags)"
    by code_simp
  have f: "walk_collects_nothing example_tail_page
     (querySelectorAll example_tail_page heading_tags ! 1)
     (nextElement_of (querySelectorAll example_tail_page heading_tags)
        (lastElement_of example_tail_page (querySelectorAll example_tail_page heading_tags)) 1)"
    by code_simp
  have v: "segment example_tail_page
       = Some (Inr [\<lparr>title = ''A'', content = ''x''\<rparr>, \<lparr>title = ''B'', content = []\<rparr>])"
    by code_simp
  have l2: "(1::nat) < length (querySelectorAll example_nested_page heading_tags)"
    by code_simp
  have n: "lastElement_of example_nested_page (querySelectorAll example_nested_page heading_tags)
       = Null"
    by code_simp
  have f2: "walk_collects_nothing example_nested_page
     (querySelectorAll example_nested_page heading_tags ! 1)
     (nextElement_of (querySelectorAll example_nested_page heading_tags)
        (lastElement_of example_nested_page (querySelectorAll example_nested_page heading_tags)) 1)"
    by code_simp
  from segment_empty_content [OF l2 f2]
  have "\<exists>secs. segment example_nested_page = Some (Inr secs) \<and> content (secs ! 1) = []"
    by blast
  with segment_empty_content [OF l f] f v n f2 show ?thesis by blast
qed

text \<open>
  C7 as the spec words it does not hold. In this page the second heading is the first
  thing after the first heading, with no content between the two, and it is the boundary
  of the first heading; yet the section of the first heading has the content \<open>B\<close>: the
  walk does not look inside the \<open>div\<close> that follows the first heading, it collects it.
\<close>

theorem segment_adjacent_headings_counterexample:
  "content_items heading_tags [] 0 example_nested_page
     = [Content, Heading [0, 1, 0], Heading [0, 1, 1, 0]]
   \<and> querySelectorAll example_nested_page heading_tags = [Node [0, 1, 0], Node [0, 1, 1, 0]]
   \<and> nextElement_of (querySelectorAll example_nested_page heading_tags)
        (lastElement_of example_nested_page (querySelectorAll example_nested_page heading_tags)) 0
       = Node [0, 1, 1, 0]
   \<and> segment example_nested_page
       = Some (Inr [\<lparr>title = ''A'', content = ''B''\<rparr>, \<lparr>title = ''B'', content = []\<rparr>])"
  by code_simp

section \<open>The chunks\<close>

lemma slice_take_drop: "slice xs a b = take (b - a) (drop a xs)"
  by (cases "a \<le> length xs") (auto simp: slice_def Let_def min_def)

lemma chunk_loop_explicit:
  "i = 25 * m \<Longrightarrow>
   chunk_loop us i acc =
     acc @ map (\<lambda>k. \<lparr>index = 25 * k, urls = take 25 (drop (25 * k) us)\<rparr>)
             [m ..< (length us + 24) div 25]"
proof (induction us i acc arbitrary: m rule: chunk_loop.induct)
  case (1 us i acc)
  show ?case
  proof (cases "i < length us")
    case True
    with "1.prems" have m: "m < (length us + 24) div 25" by linarith
    have step: "i + 25 = 25 * Suc m" using "1.prems" by simp
    have u: "[m ..< (length us + 24) div 25] = m # [Suc m ..< (length us + 24) div 25]"
      using m by (simp add: upt_conv_Cons)
    have "chunk_loop us i acc = chunk_loop us (i + 25)
          (acc @ [\<lparr>index = i, urls = slice us i (i + 25)\<rparr>])"
      using True by (subst chunk_loop.simps) simp
    also have "\<dots> = (acc @ [\<lparr>index = i, urls = slice us i (i + 25)\<rparr>]) @
        map (\<lambda>k. \<lparr>index = 25 * k, urls = take 25 (drop (25 * k) us)\<rparr>)
             [Suc m ..< (length us + 24) div 25]"
      using "1.IH"[OF True step] .
    finally show ?thesis
      unfolding u using "1.prems" by (simp add: slice_take_drop)
  next
    case False
    with "1.prems" have "(length us + 24) div 25 \<le> m" by linarith
    then have "[m ..< (length us + 24) div 25] = []" by simp
    moreover have "chunk_loop us i acc = acc"
      using False by (subst chunk_loop.simps) simp
    ultimately show ?thesis by simp
  qed
qed


lemma chunk_loop_concat:
  "concat (map urls (chunk_loop us i acc)) = concat (map urls acc) @ drop i us"
proof (induction us i acc rule: chunk_loop.induct)
  case (1 us i acc)
  show ?case
  proof (cases "i < length us")
    case True
    have td: "take 25 (drop i us) @ drop (i + 25) us = drop i us"
      by (metis add.commute append_take_drop_id drop_drop)
    have "chunk_loop us i acc = chunk_loop us (i + 25)
          (acc @ [\<lparr>index = i, urls = slice us i (i + 25)\<rparr>])"
      using True by (subst chunk_loop.simps) simp
    then have "concat (map urls (chunk_loop us i acc)) =
       concat (map urls (acc @ [\<lparr>index = i, urls = slice us i (i + 25)\<rparr>])) @ drop (i + 25) us"
      using "1.IH"[OF True] by simp
    also have "\<dots> = concat (map urls acc) @ (take 25 (drop i us) @ drop (i + 25) us)"
      by (simp add: slice_take_drop)
    finally show ?thesis by (simp only: td)
  next
    case False
    have "chunk_loop us i acc = acc"
      using False by (subst chunk_loop.simps) simp
    with False show ?thesis by simp
  qed
qed


text \<open>
  C3. For a list of \<open>L\<close> URLs the chunking loop produces \<open>ceil(L/25)\<close> chunks; chunk
  \<open>k\<close> has index \<open>k * 25\<close> and holds \<open>urls.slice(k * 25, k * 25 + 25)\<close>, between 1 and
  25 URLs; the indices are strictly increasing; and the chunks' URL lists, concatenated
  in order, are the original list.
\<close>

theorem chunk_partition:
  "length (chunk_loop us 0 []) = (length us + 24) div 25
   \<and> (\<forall>k < length (chunk_loop us 0 []).
         index (chunk_loop us 0 [] ! k) = k * 25
         \<and> urls (chunk_loop us 0 [] ! k) = slice us (k * 25) (k * 25 + 25)
         \<and> urls (chunk_loop us 0 [] ! k) = take 25 (drop (k * 25) us)
         \<and> 0 < length (urls (chunk_loop us 0 [] ! k))
         \<and> length (urls (chunk_loop us 0 [] ! k)) \<le> 25)
   \<and> sorted_wrt (<) (map index (chunk_loop us 0 []))
   \<and> concat (map urls (chunk_loop us 0 [])) = us"
proof -
  define n where "n = (length us + 24) div 25"
  define cs where "cs = chunk_loop us 0 []"
  have e: "cs = map (\<lambda>k. \<lparr>index = 25 * k, urls = take 25 (drop (25 * k) us)\<rparr>) [0 ..< n]"
    unfolding cs_def n_def using chunk_loop_explicit[of 0 0 us "[]"] by simp
  have len: "length cs = n" by (simp add: e)
  have each: "index (cs ! k) = k * 25
         \<and> urls (cs ! k) = slice us (k * 25) (k * 25 + 25)
         \<and> urls (cs ! k) = take 25 (drop (k * 25) us)
         \<and> 0 < length (urls (cs ! k))
         \<and> length (urls (cs ! k)) \<le> 25"
    if "k < length cs" for k
  proof -
    from that len have k: "k < n" by simp
    then have lt: "25 * k < length us" unfolding n_def by linarith
    have ck: "cs ! k = \<lparr>index = 25 * k, urls = take 25 (drop (25 * k) us)\<rparr>"
      using k by (simp add: e)
    show ?thesis using lt by (simp add: ck slice_take_drop mult.commute)
  qed
  have "map index cs = map (\<lambda>k. 25 * k) [0 ..< n]"
    by (simp add: e comp_def)
  then have sorted: "sorted_wrt (<) (map index cs)"
    by (simp add: sorted_wrt_iff_nth_less)
  have "concat (map urls cs) = us"
    unfolding cs_def using chunk_loop_concat[of us 0 "[]"] by simp
  with len each sorted show ?thesis unfolding cs_def n_def by blast
qed

theorem chunk_partition_witness:
  "chunk_loop (replicate 26 (JString ''a'') @ [JString ''b'']) 0 []
     = [\<lparr>index = 0, urls = replicate 25 (JString ''a'')\<rparr>,
        \<lparr>index = 25, urls = [JString ''a'', JString ''b'']\<rparr>]
   \<and> index (chunk_loop (replicate 26 (JString ''a'') @ [JString ''b'']) 0 [] ! 1) = 1 * 25
   \<and> concat (map urls (chunk_loop (replicate 26 (JString ''a'') @ [JString ''b'']) 0 []))
       = replicate 26 (JString ''a'') @ [JString ''b'']"
proof -
  have v: "chunk_loop (replicate 26 (JString ''a'') @ [JString ''b'']) 0 []
     = [\<lparr>index = 0, urls = replicate 25 (JString ''a'')\<rparr>,
        \<lparr>index = 25, urls = [JString ''a'', JString ''b'']\<rparr>]"
    by code_simp
  then have l: "1 < length (chunk_loop (replicate 26 (JString ''a'') @ [JString ''b'']) 0 [])"
    by simp
  from chunk_partition [of "replicate 26 (JString ''a'') @ [JString ''b'']"] l
  have "index (chunk_loop (replicate 26 (JString ''a'') @ [JString ''b'']) 0 [] ! 1) = 1 * 25"
    and "concat (map urls (chunk_loop (replicate 26 (JString ''a'') @ [JString ''b'']) 0 []))
       = replicate 26 (JString ''a'') @ [JString ''b'']"
    by blast+
  with v show ?thesis by blast
qed

section \<open>The sitemap\<close>

lemma map_loc_ok:
  "list_all (\<lambda>x. x \<noteq> JUndefined \<and> x \<noteq> JNull) xs \<Longrightarrow> map_loc xs = Inr (map loc_member xs)"
proof (induction xs)
  case Nil
  then show ?case by simp
next
  case (Cons x xs)
  then show ?case by (cases x) (auto simp: loc_member_def)
qed

lemma map_loc_fails:
  "\<not> list_all (\<lambda>x. x \<noteq> JUndefined \<and> x \<noteq> JNull) xs \<Longrightarrow> map_loc xs = Inl TypeError"
proof (induction xs)
  case Nil
  then show ?case by simp
next
  case (Cons x xs)
  then show ?case by (cases x) (auto split: sum.splits)
qed

lemma call_map_loc_cases:
  "call_map_loc v =
     (case v of
        JArray xs \<Rightarrow>
          (if list_all (\<lambda>x. x \<noteq> JUndefined \<and> x \<noteq> JNull) xs then Inr (map loc_member xs)
           else Inl TypeError)
      | JUndefined \<Rightarrow> Inl TypeError
      | JNull \<Rightarrow> Inl TypeError
      | JBool b \<Rightarrow> Inl TypeError
      | JNumber n \<Rightarrow> Inl TypeError
      | JString s \<Rightarrow> Inl TypeError
      | JObject kvs \<Rightarrow> Inl TypeError)"
  by (cases v) (auto simp: map_loc_ok map_loc_fails)

lemma get_prop_error: "get_prop v k = Inl e \<Longrightarrow> e = TypeError"
  by (cases v) auto

lemma get_sitemap_urls_of_response:
  "fetch env sitemapUrl = Some response \<Longrightarrow>
   get_sitemap_urls env sitemapUrl =
     (case get_prop (xml_parse env (body response)) ''urlset'' of
        Inl e \<Rightarrow> Inl e
      | Inr urlset \<Rightarrow>
          (case get_prop urlset ''url'' of
             Inl e \<Rightarrow> Inl e
           | Inr url_member \<Rightarrow> call_map_loc url_member))"
  by (simp add: get_sitemap_urls_def)

lemma get_sitemap_urls_no_urlset:
  assumes "fetch env sitemapUrl = Some response"
    and "no_urlset (xml_parse env (body response))"
  shows "get_sitemap_urls env sitemapUrl = Inl TypeError"
proof (cases "get_prop (xml_parse env (body response)) ''urlset''")
  case (Inl e)
  with get_prop_error[OF Inl] assms(1) show ?thesis
    by (simp add: get_sitemap_urls_of_response)
next
  case (Inr urlset)
  with assms(2) have "urlset = JUndefined \<or> urlset = JNull"
    by (cases urlset) (simp_all add: no_urlset_def)
  with Inr assms(1) show ?thesis
    by (auto simp: get_sitemap_urls_of_response)
qed

lemma get_sitemap_urls_entries:
  assumes "fetch env sitemapUrl = Some response"
    and "url_entries (xml_parse env (body response)) = Some xs"
  shows "get_sitemap_urls env sitemapUrl = Inr (map loc_member xs)"
proof -
  from assms(2) obtain urlset where
    u: "get_prop (xml_parse env (body response)) ''urlset'' = Inr urlset"
    by (cases "get_prop (xml_parse env (body response)) ''urlset''")
      (simp_all add: url_entries_def)
  with assms(2) obtain v where v: "get_prop urlset ''url'' = Inr v"
    by (cases "get_prop urlset ''url''") (simp_all add: url_entries_def)
  with assms(2) u have "v = JArray xs \<and> list_all (\<lambda>x. x \<noteq> JUndefined \<and> x \<noteq> JNull) xs"
    by (cases v) (simp_all add: url_entries_def split: if_splits)
  with assms(1) u v show ?thesis
    by (simp add: get_sitemap_urls_of_response call_map_loc_cases)
qed

text \<open>
  C6, as amended. The task get-sitemap-urls fails with the rejection of \<open>fetch\<close> (the
  spec's \<open>FetchError\<close>) when the request for the sitemap itself fails. The status of the
  response is never read: the task does the same whatever the status is. It fails (with
  a \<open>TypeError\<close>, where the spec says \<open>MalformedSitemapError\<close>) when the parsed text
  has no \<open>urlset\<close> member. When \<open>urlset.url\<close> is an array, it returns, in the order of
  the array, the \<open>loc\<close> member of every entry, \<open>undefined\<close> for an entry without one.
  Nothing is said here of a sitemap whose \<open>urlset.url\<close> is not an array.
\<close>

theorem get_sitemap_urls_cases:
  "(fetch env sitemapUrl = None \<longrightarrow> get_sitemap_urls env sitemapUrl = Inl FetchRejected)
   \<and> (\<forall>response n. fetch env sitemapUrl = Some response \<longrightarrow>
          get_sitemap_urls
            (env\<lparr>fetch := (fetch env)(sitemapUrl := Some (response\<lparr>status := n\<rparr>))\<rparr>) sitemapUrl
          = get_sitemap_urls env sitemapUrl)
   \<and> (\<forall>response. fetch env sitemapUrl = Some response
          \<and> no_urlset (xml_parse env (body response)) \<longrightarrow>
          get_sitemap_urls env sitemapUrl = Inl TypeError)
   \<and> (\<forall>response xs. fetch env sitemapUrl = Some response
          \<and> url_entries (xml_parse env (body response)) = Some xs \<longrightarrow>
          get_sitemap_urls env sitemapUrl = Inr (map loc_member xs))"
proof -
  have a: "fetch env sitemapUrl = None \<longrightarrow> get_sitemap_urls env sitemapUrl = Inl FetchRejected"
    by (simp add: get_sitemap_urls_def)
  have b: "get_sitemap_urls
            (env\<lparr>fetch := (fetch env)(sitemapUrl := Some (response\<lparr>status := n\<rparr>))\<rparr>) sitemapUrl
          = get_sitemap_urls env sitemapUrl"
    if "fetch env sitemapUrl = Some response" for response n
    using that by (simp add: get_sitemap_urls_def)
  from a b get_sitemap_urls_no_urlset get_sitemap_urls_entries show ?thesis by blast
qed

theorem get_sitemap_urls_cases_witness:
  "get_sitemap_urls example_env ''https://docs.example.com/sitemap.xml''
     = Inr [JString ''https://docs.example.com/a'', JString ''https://docs.example.com/b'',
            JString ''https://docs.example.com/c'']
   \<and> get_sitemap_urls example_env ''https://nowhere.example.com/sitemap.xml''
       = Inl FetchRejected
   \<and> no_urlset (xml_parse example_env error_page_html)
   \<and> get_sitemap_urls example_env ''https://gone.example.com/sitemap.xml'' = Inl TypeError"
proof -
  have f1: "fetch example_env ''https://docs.example.com/sitemap.xml''
              = Some \<lparr>status = 200, body = sitemap_xml\<rparr>"
    by code_simp
  have e1: "url_entries (xml_parse example_env (body \<lparr>status = 200, body = sitemap_xml\<rparr>))
              = Some [JObject [(''loc'', JString ''https://docs.example.com/a'')],
                      JObject [(''loc'', JString ''https://docs.example.com/b'')],
                      JObject [(''loc'', JString ''https://docs.example.com/c'')]]"
    by code_simp
  have m1: "map loc_member [JObject [(''loc'', JString ''https://docs.example.com/a'')],
                      JObject [(''loc'', JString ''https://docs.example.com/b'')],
                      JObject [(''loc'', JString ''https://docs.example.com/c'')]]
              = [JString ''https://docs.example.com/a'', JString ''https://docs.example.com/b'',
                 JString ''https://docs.example.com/c'']"
    by code_simp
  have f2: "fetch example_env ''https://nowhere.example.com/sitemap.xml'' = None"
    by code_simp
  have f3: "fetch example_env ''https://gone.example.com/sitemap.xml''
              = Some \<lparr>status = 404, body = error_page_html\<rparr>"
    by code_simp
  have n3: "no_urlset (xml_parse example_env error_page_html)"
    by code_simp
  then have n3': "no_urlset (xml_parse example_env (body \<lparr>status = 404, body = error_page_html\<rparr>))"
    by simp
  from get_sitemap_urls_cases [of example_env "''https://docs.example.com/sitemap.xml''"] f1 e1
  have "get_sitemap_urls example_env ''https://docs.example.com/sitemap.xml''
          = Inr (map loc_member [JObject [(''loc'', JString ''https://docs.example.com/a'')],
                      JObject [(''loc'', JString ''https://docs.example.com/b'')],
                      JObject [(''loc'', JString ''https://docs.example.com/c'')]])"
    by blast
  moreover from get_sitemap_urls_cases [of example_env "''https://nowhere.example.com/sitemap.xml''"] f2
  have "get_sitemap_urls example_env ''https://nowhere.example.com/sitemap.xml'' = Inl FetchRejected"
    by blast
  moreover from get_sitemap_urls_cases [of example_env "''https://gone.example.com/sitemap.xml''"] f3 n3'
  have "get_sitemap_urls example_env ''https://gone.example.com/sitemap.xml'' = Inl TypeError"
    by blast
  ultimately show ?thesis using m1 n3 by simp
qed

text \<open>
  C6 as the spec words it does not hold. A response with status 404 whose body is a
  sitemap is read like any other, and the task returns its URLs; with an error page as
  the body the task fails at the property read, not as a failed fetch; and entries that
  have no \<open>loc\<close> make no error.
\<close>

theorem get_sitemap_urls_status_counterexample:
  "map_option status (fetch example_env ''https://stale.example.com/sitemap.xml'') = Some 404
   \<and> get_sitemap_urls example_env ''https://stale.example.com/sitemap.xml''
       = Inr [JString ''https://docs.example.com/a'', JString ''https://docs.example.com/b'',
              JString ''https://docs.example.com/c'']
   \<and> map_option status (fetch example_env ''https://gone.example.com/sitemap.xml'') = Some 404
   \<and> get_sitemap_urls example_env ''https://gone.example.com/sitemap.xml'' = Inl TypeError
   \<and> get_sitemap_urls example_env ''https://noloc.example.com/sitemap.xml''
       = Inr [JUndefined, JUndefined]"
  by code_simp

section \<open>The batches and the corpus\<close>

lemma segment_returns: "\<exists>secs. segment doc = Some (Inr secs)"
  using segment_result[of doc] by blast

lemma process_single_url_returns: "\<exists>r. process_single_url env u = Some r"
proof (cases "fetch env u")
  case None
  then show ?thesis by (simp add: process_single_url_def)
next
  case (Some response)
  obtain secs where
    "segment (remove_scripts_and_styles (jsdom env (body response))) = Some (Inr secs)"
    using segment_returns by blast
  with Some show ?thesis by (simp add: process_single_url_def Let_def)
qed

lemma process_single_url_ok:
  assumes "process_single_url env u = Some (Inr pg)"
  shows "\<exists>response secs. fetch env u = Some response
           \<and> segment (remove_scripts_and_styles (jsdom env (body response))) = Some (Inr secs)
           \<and> pg = render_page u secs"
  using assms
  by (auto simp: process_single_url_def Let_def split: option.splits sum.splits)

lemma process_single_url_failure: "job_failed env u \<longleftrightarrow> fetch env u = None"
proof (cases "fetch env u")
  case None
  then show ?thesis by (simp add: job_failed_def process_single_url_def)
next
  case (Some response)
  obtain secs where
    "segment (remove_scripts_and_styles (jsdom env (body response))) = Some (Inr secs)"
    using segment_returns by blast
  with Some show ?thesis by (simp add: job_failed_def process_single_url_def Let_def)
qed

lemma parse_payload_Inr: "parse_payload env v = Inr u \<Longrightarrow> v = JString u \<and> is_url env u"
  by (cases v) (auto simp: parse_payload_def split: if_splits)

lemma parse_payloads_Inr:
  "parse_payloads env vs = Inr us \<Longrightarrow> vs = map JString us \<and> list_all (is_url env) us"
proof (induction vs arbitrary: us)
  case Nil
  then show ?case by simp
next
  case (Cons v vs)
  from Cons.prems obtain u us' where
    u: "parse_payload env v = Inr u" and t: "parse_payloads env vs = Inr us'" and e: "us = u # us'"
    by (auto split: sum.splits)
  from parse_payload_Inr[OF u] Cons.IH[OF t] e show ?case by simp
qed

lemma parse_payloads_append:
  "parse_payloads env (xs @ ys) = Inr us \<Longrightarrow>
   \<exists>us1 us2. us = us1 @ us2 \<and> parse_payloads env xs = Inr us1 \<and> parse_payloads env ys = Inr us2"
proof (induction xs arbitrary: us)
  case Nil
  then show ?case by simp
next
  case (Cons x xs)
  from Cons.prems obtain u us' where
    u: "parse_payload env x = Inr u" and t: "parse_payloads env (xs @ ys) = Inr us'"
    and e: "us = u # us'"
    by (auto split: sum.splits)
  from Cons.IH[OF t] obtain us1 us2 where
    "us' = us1 @ us2" "parse_payloads env xs = Inr us1" "parse_payloads env ys = Inr us2"
    by blast
  with u e have "us = (u # us1) @ us2 \<and> parse_payloads env (x # xs) = Inr (u # us1)
      \<and> parse_payloads env ys = Inr us2"
    by simp
  then show ?case by blast
qed

lemma results_loop_explicit:
  "length results = length vs \<Longrightarrow>
   results_loop results vs i pages = pages @ List.map_filter push_ok (drop i (zip vs results))"
proof (induction results vs i pages rule: results_loop.induct)
  case (1 results vs i pages)
  show ?case
  proof (cases "i < length results")
    case False
    then have "results_loop results vs i pages = pages"
      by (subst results_loop.simps) simp
    with False "1.prems" show ?thesis by (simp add: List.map_filter_simps)
  next
    case True
    with "1.prems" have d: "drop i (zip vs results) = (vs ! i, results ! i) # drop (Suc i) (zip vs results)"
      by (simp add: Cons_nth_drop_Suc[symmetric])
    show ?thesis
    proof (cases "results ! i")
      case (Inl e)
      have "results_loop results vs i pages = results_loop results vs (Suc i) pages"
        using True Inl by (subst results_loop.simps) simp
      with "1.IH"(1)[OF True Inl "1.prems"] d Inl show ?thesis
        by (simp add: List.map_filter_simps push_ok_def)
    next
      case (Inr pg)
      have "results_loop results vs i pages =
          results_loop results vs (Suc i) (pages @ [\<lparr>url = js_index vs i, page = pg\<rparr>])"
        using True Inr by (subst results_loop.simps) simp
      with "1.IH"(2)[OF True Inr "1.prems"] d Inr True "1.prems" show ?thesis
        by (simp add: List.map_filter_simps push_ok_def js_index_def)
    qed
  qed
qed

lemma those_map_Some: "those (map Some xs) = Some xs"
  by (induction xs) auto

lemma all_runs_return: "\<exists>results. map (process_single_url env) us = map Some results"
proof (induction us)
  case Nil
  then show ?case by simp
next
  case (Cons u us)
  then obtain results where r: "map (process_single_url env) us = map Some results" by blast
  obtain r0 where "process_single_url env u = Some r0"
    using process_single_url_returns by blast
  with r have "map (process_single_url env) (u # us) = map Some (r0 # results)" by simp
  then show ?case by blast
qed

lemma batch_results:
  assumes "parse_payloads env vs = Inr us"
  shows "\<exists>results. batchInvokeAndWaitForCompletion env vs = Some (Inr results)
      \<and> map (process_single_url env) us = map Some results"
proof -
  obtain results where r: "map (process_single_url env) us = map Some results"
    using all_runs_return by blast
  then have "batchInvokeAndWaitForCompletion env vs = Some (Inr results)"
    using assms by (simp add: batchInvokeAndWaitForCompletion_def those_map_Some)
  with r show ?thesis by blast
qed

lemma push_ok_page_of:
  "map (process_single_url env) us = map Some results \<Longrightarrow>
   List.map_filter push_ok (zip (map JString us) results) = List.map_filter (page_of env) us"
proof (induction us arbitrary: results)
  case Nil
  then show ?case by (simp add: List.map_filter_simps)
next
  case (Cons u us)
  then obtain r rs where rs: "results = r # rs" by (cases results) auto
  with Cons.prems have h: "process_single_url env u = Some r"
    and t: "map (process_single_url env) us = map Some rs" by auto
  from Cons.IH[OF t] h rs show ?case
    by (cases r) (simp_all add: List.map_filter_simps push_ok_def page_of_def)
qed

lemma map_filter_append: "List.map_filter f (xs @ ys) = List.map_filter f xs @ List.map_filter f ys"
  by (simp add: List.map_filter_def)

lemma chunks_loop_explicit:
  "parse_payloads env (concat (map urls cs)) = Inr us \<Longrightarrow>
   chunks_loop env cs pages = Some (Inr (pages @ List.map_filter (page_of env) us))"
proof (induction cs arbitrary: pages us)
  case Nil
  then show ?case by (simp add: List.map_filter_simps)
next
  case (Cons c cs)
  from Cons.prems have "parse_payloads env (urls c @ concat (map urls cs)) = Inr us" by simp
  from parse_payloads_append[OF this] obtain us1 us2 where
    e: "us = us1 @ us2" and p1: "parse_payloads env (urls c) = Inr us1"
    and p2: "parse_payloads env (concat (map urls cs)) = Inr us2"
    by blast
  obtain results where b: "batchInvokeAndWaitForCompletion env (urls c) = Some (Inr results)"
    and m: "map (process_single_url env) us1 = map Some results"
    using batch_results[OF p1] by blast
  from parse_payloads_Inr[OF p1] have v: "urls c = map JString us1" by simp
  from m have "length results = length us1" by (metis length_map)
  with v have len: "length results = length (urls c)" by simp
  have "results_loop results (urls c) 0 pages = pages @ List.map_filter (page_of env) us1"
    using results_loop_explicit[OF len, of 0 pages] push_ok_page_of[OF m] v by simp
  with b Cons.IH[OF p2] e show ?case by (simp add: map_filter_append)
qed

lemma length_map_filter_page_of:
  "length (List.map_filter (page_of env) us) + length (filter (job_failed env) us) = length us"
proof (induction us)
  case Nil
  then show ?case by (simp add: List.map_filter_simps)
next
  case (Cons u us)
  obtain r where "process_single_url env u = Some r"
    using process_single_url_returns by blast
  with Cons show ?case
    by (cases r) (simp_all add: List.map_filter_simps page_of_def job_failed_def)
qed

lemma urls_map_filter_page_of:
  "map url (List.map_filter (page_of env) us) = map JString (filter (\<lambda>u. \<not> job_failed env u) us)"
proof (induction us)
  case Nil
  then show ?case by (simp add: List.map_filter_simps)
next
  case (Cons u us)
  obtain r where "process_single_url env u = Some r"
    using process_single_url_returns by blast
  with Cons show ?case
    by (cases r) (simp_all add: List.map_filter_simps page_of_def job_failed_def)
qed

lemma page_of_header:
  assumes "p \<in> set (List.map_filter (page_of env) us)"
  shows "\<exists>u response secs rest. u \<in> set us \<and> url p = JString u \<and> fetch env u = Some response
            \<and> segment (remove_scripts_and_styles (jsdom env (body response))) = Some (Inr secs)
            \<and> page p = render_page u secs \<and> page p = page_header u @ rest"
proof -
  from assms obtain u where u: "u \<in> set us" "page_of env u = Some p"
    by (auto simp: List.map_filter_def)
  then obtain pg where pg: "process_single_url env u = Some (Inr pg)" "p = \<lparr>url = JString u, page = pg\<rparr>"
    by (auto simp: page_of_def split: option.splits sum.splits)
  from process_single_url_ok[OF pg(1)] obtain response secs where
    r: "fetch env u = Some response"
    "segment (remove_scripts_and_styles (jsdom env (body response))) = Some (Inr secs)"
    "pg = render_page u secs" by blast
  have "render_page u secs = page_header u @ (newline @ indent
     @ join newline (map (\<lambda>el. title el @ newline @ content el) secs) @ newline
     @ newline @ indent @ dashes @ newline @ indent)"
    by (simp add: render_page_def page_header_def)
  with u(1) pg(2) r show ?thesis by auto
qed

lemma join_contains: "x \<in> set xs \<Longrightarrow> \<exists>pre post. join sep xs = pre @ x @ post"
proof (induction sep xs rule: join.induct)
  case (1 sep)
  then show ?case by simp
next
  case (2 sep y)
  then have "join sep [y] = [] @ x @ []" by simp
  then show ?case by blast
next
  case (3 sep y z zs)
  show ?case
  proof (cases "x = y")
    case True
    then have "join sep (y # z # zs) = [] @ x @ (sep @ join sep (z # zs))" by simp
    then show ?thesis by blast
  next
    case False
    with "3.prems" have "x \<in> set (z # zs)" by simp
    from "3.IH"[OF this] obtain pre post where "join sep (z # zs) = pre @ x @ post" by blast
    then have "join sep (y # z # zs) = (y @ sep @ pre) @ x @ post" by simp
    then show ?thesis by blast
  qed
qed

lemma run_crawl_pages:
  assumes "get_sitemap_urls env (site @ ''/sitemap.xml'') = Inr sitemapUrls"
    and "parse_payloads env sitemapUrls = Inr us"
  shows "chunks_loop env (chunk_loop sitemapUrls 0 []) [] = Some (Inr (List.map_filter (page_of env) us))"
    and "run_crawl env site =
           Some (Inr (join (newline @ newline) (map page (List.map_filter (page_of env) us))))"
proof -
  have "parse_payloads env (concat (map urls (chunk_loop sitemapUrls 0 []))) = Inr us"
    using assms(2) chunk_loop_concat[of sitemapUrls 0 "[]"] by simp
  from chunks_loop_explicit[OF this, of "[]"]
  show c: "chunks_loop env (chunk_loop sitemapUrls 0 []) [] = Some (Inr (List.map_filter (page_of env) us))"
    by simp
  with assms(1) show "run_crawl env site =
           Some (Inr (join (newline @ newline) (map page (List.map_filter (page_of env) us))))"
    by (simp add: run_crawl_def fileContents_def)
qed

text \<open>
  C2, as amended. A run of process-single-url fails exactly when its \<open>fetch\<close> rejects;
  the status of a response is not read, so a page answered with an HTTP error status is
  a successful page. When the sitemap has been read and each of its entries satisfies
  the schema of the payload, the crawl returns a corpus and no error, whatever the runs
  do: the pages are exactly the results of the runs that did not fail, each under the URL
  it was fetched from, in the order of the sitemap; the number of pages plus the number
  of failed runs is the number of URLs; the text of a page is the rendering of its
  sections and starts with the header that names its source URL; and the corpus is the
  texts of the pages joined by blank lines, so it contains the text of every page.
\<close>

theorem run_crawl_drops_failures:
  assumes "get_sitemap_urls env (site @ ''/sitemap.xml'') = Inr sitemapUrls"
    and "parse_payloads env sitemapUrls = Inr us"
  shows "\<exists>pages corpus.
           chunks_loop env (chunk_loop sitemapUrls 0 []) [] = Some (Inr pages)
           \<and> run_crawl env site = Some (Inr corpus)
           \<and> corpus = join (newline @ newline) (map page pages)
           \<and> (\<forall>p \<in> set pages. \<exists>pre post. corpus = pre @ page p @ post)
           \<and> pages = List.map_filter (page_of env) us
           \<and> map url pages = map JString (filter (\<lambda>u. \<not> job_failed env u) us)
           \<and> length pages + length (filter (job_failed env) us) = length sitemapUrls
           \<and> (\<forall>p \<in> set pages. \<exists>u response secs rest.
                 u \<in> set us \<and> url p = JString u \<and> fetch env u = Some response
                 \<and> segment (remove_scripts_and_styles (jsdom env (body response))) = Some (Inr secs)
                 \<and> page p = render_page u secs \<and> page p = page_header u @ rest)
           \<and> (\<forall>u \<in> set us. job_failed env u \<longleftrightarrow> fetch env u = None)"
proof -
  let ?pages = "List.map_filter (page_of env) us"
  let ?corpus = "join (newline @ newline) (map page ?pages)"
  note c = run_crawl_pages[OF assms]
  have contains: "\<exists>pre post. ?corpus = pre @ page p @ post" if "p \<in> set ?pages" for p
    using that join_contains[of "page p" "map page ?pages" "newline @ newline"] by simp
  from parse_payloads_Inr[OF assms(2)] have "length sitemapUrls = length us" by simp
  with length_map_filter_page_of[of env us]
  have n: "length ?pages + length (filter (job_failed env) us) = length sitemapUrls" by simp
  from c contains n urls_map_filter_page_of[of env us] page_of_header[of _ env us]
    process_single_url_failure[of env]
  show ?thesis by blast
qed

theorem run_crawl_drops_failures_witness:
  "get_sitemap_urls example_env (''https://docs.example.com'' @ ''/sitemap.xml'')
     = Inr [JString ''https://docs.example.com/a'', JString ''https://docs.example.com/b'',
            JString ''https://docs.example.com/c'']
   \<and> parse_payloads example_env
         [JString ''https://docs.example.com/a'', JString ''https://docs.example.com/b'',
          JString ''https://docs.example.com/c'']
       = Inr [''https://docs.example.com/a'', ''https://docs.example.com/b'',
              ''https://docs.example.com/c'']
   \<and> filter (job_failed example_env)
         [''https://docs.example.com/a'', ''https://docs.example.com/b'',
          ''https://docs.example.com/c'']
       = [''https://docs.example.com/b'']
   \<and> run_crawl example_env ''https://docs.example.com''
       = Some (Inr (render_page ''https://docs.example.com/a''
                      [\<lparr>title = ''A'', content = []\<rparr>, \<lparr>title = ''B'', content = ''x''\<rparr>]
                    @ [CHR 0x0A, CHR 0x0A]
                    @ render_page ''https://docs.example.com/c'' []))
   \<and> render_page ''https://docs.example.com/c'' []
       = [CHR 0x0A] @ ''        ----------------------------------'' @ [CHR 0x0A]
         @ ''        url: https://docs.example.com/c'' @ [CHR 0x0A, CHR 0x0A]
         @ ''        '' @ [CHR 0x0A, CHR 0x0A]
         @ ''        ----------------------------------'' @ [CHR 0x0A]
         @ ''        ''
   \<and> (\<exists>pages. chunks_loop example_env
          (chunk_loop [JString ''https://docs.example.com/a'', JString ''https://docs.example.com/b'',
             JString ''https://docs.example.com/c''] 0 []) [] = Some (Inr pages)
        \<and> map url pages = [JString ''https://docs.example.com/a'', JString ''https://docs.example.com/c'']
        \<and> length pages + 1 = 3)"
proof -
  have h: "get_sitemap_urls example_env (''https://docs.example.com'' @ ''/sitemap.xml'')
     = Inr [JString ''https://docs.example.com/a'', JString ''https://docs.example.com/b'',
            JString ''https://docs.example.com/c'']"
    by code_simp
  have pp: "parse_payloads example_env
         [JString ''https://docs.example.com/a'', JString ''https://docs.example.com/b'',
          JString ''https://docs.example.com/c'']
       = Inr [''https://docs.example.com/a'', ''https://docs.example.com/b'',
              ''https://docs.example.com/c'']"
    by code_simp
  have f: "filter (job_failed example_env)
         [''https://docs.example.com/a'', ''https://docs.example.com/b'',
          ''https://docs.example.com/c'']
       = [''https://docs.example.com/b'']"
    by code_simp
  have g: "filter (\<lambda>u. \<not> job_failed example_env u)
         [''https://docs.example.com/a'', ''https://docs.example.com/b'',
          ''https://docs.example.com/c'']
       = [''https://docs.example.com/a'', ''https://docs.example.com/c'']"
    by code_simp
  have r: "run_crawl example_env ''https://docs.example.com''
       = Some (Inr (render_page ''https://docs.example.com/a''
                      [\<lparr>title = ''A'', content = []\<rparr>, \<lparr>title = ''B'', content = ''x''\<rparr>]
                    @ [CHR 0x0A, CHR 0x0A]
                    @ render_page ''https://docs.example.com/c'' []))"
    by code_simp
  have t: "render_page ''https://docs.example.com/c'' []
       = [CHR 0x0A] @ ''        ----------------------------------'' @ [CHR 0x0A]
         @ ''        url: https://docs.example.com/c'' @ [CHR 0x0A, CHR 0x0A]
         @ ''        '' @ [CHR 0x0A, CHR 0x0A]
         @ ''        ----------------------------------'' @ [CHR 0x0A]
         @ ''        ''"
    by code_simp
  from run_crawl_drops_failures [OF h pp] obtain pages where
    "chunks_loop example_env
          (chunk_loop [JString ''https://docs.example.com/a'', JString ''https://docs.example.com/b'',
             JString ''https://docs.example.com/c''] 0 []) [] = Some (Inr pages)"
    "map url pages = map JString (filter (\<lambda>u. \<not> job_failed example_env u)
         [''https://docs.example.com/a'', ''https://docs.example.com/b'',
          ''https://docs.example.com/c''])"
    "length pages + length (filter (job_failed example_env)
         [''https://docs.example.com/a'', ''https://docs.example.com/b'',
          ''https://docs.example.com/c'']) = length
         [JString ''https://docs.example.com/a'', JString ''https://docs.example.com/b'',
          JString ''https://docs.example.com/c'']"
    by blast
  then have "\<exists>pages. chunks_loop example_env
          (chunk_loop [JString ''https://docs.example.com/a'', JString ''https://docs.example.com/b'',
             JString ''https://docs.example.com/c''] 0 []) [] = Some (Inr pages)
        \<and> map url pages = [JString ''https://docs.example.com/a'', JString ''https://docs.example.com/c'']
        \<and> length pages + 1 = 3"
    unfolding f g by auto
  with h pp f r t show ?thesis by blast
qed

text \<open>
  C2 as the spec words it does not hold. The request for the page \<open>/old\<close> is answered
  with status 404, a failed fetch in the spec's terms, yet the page is not dropped: the
  corpus holds two pages for the two URLs, the first of them the rendering of the error
  page. And where an entry of the sitemap is not a URL, as for the entries without
  \<open>loc\<close>, the crawl returns no corpus: the batch invocation throws in the run of
  process-site.
\<close>

theorem run_crawl_http_error_counterexample:
  "map_option status (fetch example_env ''https://moved.example.com/old'') = Some 404
   \<and> jsdom example_env error_page_html = example_error_page
   \<and> run_crawl example_env ''https://moved.example.com''
       = Some (Inr (render_page ''https://moved.example.com/old'' []
                    @ [CHR 0x0A, CHR 0x0A]
                    @ render_page ''https://moved.example.com/new'' []))
   \<and> get_sitemap_urls example_env (''https://noloc.example.com'' @ ''/sitemap.xml'')
       = Inr [JUndefined, JUndefined]
   \<and> run_crawl example_env ''https://noloc.example.com'' = Some (Inl ParsedPayloadSchemaError)"
  by code_simp

section \<open>The Site Registry\<close>



lemma publish_ok_miss:
  assumes "publish env site text st = (Inr new_id, st')" and "registry st site = None"
  shows "\<exists>file_id. files_create env (trace st) text = Inr file_id
           \<and> assistants_create env (trace st @ [FilesCreate text, StoreGet site]) site [file_id] = Inr new_id
           \<and> st' = \<lparr>registry = (registry st)(site \<mapsto> new_id),
                    trace = trace st @ [FilesCreate text, StoreGet site,
                                        AssistantsCreate site [file_id], StoreSet site new_id]\<rparr>"
  using assms by (auto simp: publish_def io_def Let_def split: sum.splits)

lemma publish_ok_hit:
  assumes "publish env site text st = (Inr the_id, st')" and "registry st site = Some assistant_id"
  shows "the_id = assistant_id \<and>
         (\<exists>file_id. files_create env (trace st) text = Inr file_id
           \<and> st' = \<lparr>registry = registry st,
                    trace = trace st @ [FilesCreate text, StoreGet site,
                                        AssistantsUpdate assistant_id [file_id]]\<rparr>)"
  using assms by (auto simp: publish_def io_def Let_def split: sum.splits)

lemma publish_ok_registry:
  assumes "publish env site text st = (Inr the_id, st')"
  shows "registry st' site = Some the_id \<and> (\<forall>other. other \<noteq> site \<longrightarrow> registry st' other = registry st other)"
proof (cases "registry st site")
  case None
  from publish_ok_miss[OF assms None] show ?thesis by auto
next
  case (Some a)
  from publish_ok_hit[OF assms Some] Some show ?thesis by auto
qed

text \<open>
  C1. When \<open>publish\<close> returns twice in a row for the same site URL, the two results are
  the same identifier. After the first call the registry holds that identifier under the
  site URL; the second call finds it, makes exactly the calls upload, lookup and update of
  that assistant (no creation), and leaves the registry as it is. When the first lookup
  misses, the first call creates one assistant and stores its identifier under the site
  URL; when it hits, the first call returns the stored identifier. The registry never
  holds more than one identifier for a site URL.
\<close>

theorem publish_twice_same_id:
  assumes "publish env site text1 st = (Inr id1, st1)"
    and "publish env site text2 st1 = (Inr id2, st2)"
  shows "id2 = id1
         \<and> registry st1 site = Some id1
         \<and> registry st2 = registry st1
         \<and> (\<exists>file2. trace st2 = trace st1 @ [FilesCreate text2, StoreGet site,
                                               AssistantsUpdate id1 [file2]])
         \<and> (registry st site = None \<longrightarrow>
               registry st1 = (registry st)(site \<mapsto> id1)
               \<and> (\<exists>file1. trace st1 = trace st @ [FilesCreate text1, StoreGet site,
                                AssistantsCreate site [file1], StoreSet site id1]))
         \<and> (\<forall>a. registry st site = Some a \<longrightarrow> id1 = a \<and> registry st1 = registry st)"
proof -
  from publish_ok_registry[OF assms(1)] have r1: "registry st1 site = Some id1" by simp
  from publish_ok_hit[OF assms(2) r1] have
    "id2 = id1" "registry st2 = registry st1"
    "\<exists>file2. trace st2 = trace st1 @ [FilesCreate text2, StoreGet site, AssistantsUpdate id1 [file2]]"
    by auto
  moreover have "registry st1 = (registry st)(site \<mapsto> id1)
               \<and> (\<exists>file1. trace st1 = trace st @ [FilesCreate text1, StoreGet site,
                                AssistantsCreate site [file1], StoreSet site id1])"
    if "registry st site = None"
    using publish_ok_miss[OF assms(1) that] by auto
  moreover have "id1 = a \<and> registry st1 = registry st" if "registry st site = Some a" for a
    using publish_ok_hit[OF assms(1) that] by auto
  ultimately show ?thesis using r1 by blast
qed

theorem publish_twice_same_id_witness:
  "fst (publish example_env ''https://docs.example.com'' ''one'' empty_state) = Inr ''asst-1''
   \<and> fst (publish example_env ''https://docs.example.com'' ''two''
             (snd (publish example_env ''https://docs.example.com'' ''one'' empty_state))) = Inr ''asst-1''
   \<and> registry (snd (publish example_env ''https://docs.example.com'' ''two''
             (snd (publish example_env ''https://docs.example.com'' ''one'' empty_state)))) ''https://docs.example.com'' = Some ''asst-1''
   \<and> trace (snd (publish example_env ''https://docs.example.com'' ''two''
             (snd (publish example_env ''https://docs.example.com'' ''one'' empty_state))))
       = [FilesCreate ''one'', StoreGet ''https://docs.example.com'', AssistantsCreate ''https://docs.example.com'' [''file-1''],
          StoreSet ''https://docs.example.com'' ''asst-1'',
          FilesCreate ''two'', StoreGet ''https://docs.example.com'', AssistantsUpdate ''asst-1'' [''file-2'']]"
proof -
  have f1: "fst (publish example_env ''https://docs.example.com'' ''one'' empty_state) = Inr ''asst-1''"
    by code_simp
  have f2: "fst (publish example_env ''https://docs.example.com'' ''two''
             (snd (publish example_env ''https://docs.example.com'' ''one'' empty_state))) = Inr ''asst-1''"
    by code_simp
  have t: "trace (snd (publish example_env ''https://docs.example.com'' ''two''
             (snd (publish example_env ''https://docs.example.com'' ''one'' empty_state))))
       = [FilesCreate ''one'', StoreGet ''https://docs.example.com'', AssistantsCreate ''https://docs.example.com'' [''file-1''],
          StoreSet ''https://docs.example.com'' ''asst-1'',
          FilesCreate ''two'', StoreGet ''https://docs.example.com'', AssistantsUpdate ''asst-1'' [''file-2'']]"
    by code_simp
  have p1: "publish example_env ''https://docs.example.com'' ''one'' empty_state
              = (Inr ''asst-1'', snd (publish example_env ''https://docs.example.com'' ''one'' empty_state))"
    using f1 by (simp add: prod_eq_iff)
  have p2: "publish example_env ''https://docs.example.com'' ''two''
              (snd (publish example_env ''https://docs.example.com'' ''one'' empty_state))
              = (Inr ''asst-1'', snd (publish example_env ''https://docs.example.com'' ''two''
                  (snd (publish example_env ''https://docs.example.com'' ''one'' empty_state))))"
    using f2 by (simp add: prod_eq_iff)
  from publish_twice_same_id [OF p1 p2]
  have "registry (snd (publish example_env ''https://docs.example.com'' ''two''
             (snd (publish example_env ''https://docs.example.com'' ''one'' empty_state)))) ''https://docs.example.com'' = Some ''asst-1''"
    by simp
  with f1 f2 t show ?thesis by blast
qed

text \<open>
  C8. When the registry has no entry for the site URL, question-assistant fails with the
  error "No assistant found", and the lookup in the store is the only call it has made:
  no thread is retrieved or created, no message is appended, no run is started.
\<close>

theorem question_assistant_unknown_site:
  assumes "registry st site = None"
  shows "question_assistant env question site threadId st
           = (Inl (NoAssistantFound site), st\<lparr>trace := trace st @ [StoreGet site]\<rparr>)"
  using assms by (simp add: question_assistant_def io_def Let_def)

theorem question_assistant_unknown_site_witness:
  "registry empty_state ''https://docs.example.com'' = None
   \<and> fst (question_assistant example_env ''What is X?'' ''https://docs.example.com'' None empty_state)
       = Inl (NoAssistantFound ''https://docs.example.com'')
   \<and> trace (snd (question_assistant example_env ''What is X?'' ''https://docs.example.com'' None empty_state))
       = [StoreGet ''https://docs.example.com'']"
proof -
  have n: "registry empty_state ''https://docs.example.com'' = None"
    by (simp add: empty_state_def)
  from question_assistant_unknown_site [OF n, of example_env "''What is X?''" None] n
  show ?thesis by (simp add: empty_state_def)
qed

text \<open>
  C9. The job delete-assistant makes one call, the deletion of the assistant at the
  OpenAI service, whether that call succeeds or not; it does not read or write the
  store, and the registry after it is the registry before it.
\<close>

theorem delete_assistant_keeps_registry:
  "registry (snd (delete_assistant env assistant_id st)) = registry st
   \<and> trace (snd (delete_assistant env assistant_id st)) = trace st @ [AssistantsDel assistant_id]"
  by (simp add: delete_assistant_def io_def split: sum.splits)

theorem delete_assistant_keeps_registry_witness:
  "registry (snd (delete_assistant example_env ''asst-1''
       (snd (publish example_env ''https://docs.example.com'' ''one'' empty_state)))) ''https://docs.example.com'' = Some ''asst-1''
   \<and> trace (snd (delete_assistant example_env ''asst-1'' empty_state))
       = [AssistantsDel ''asst-1'']"
proof -
  have "registry (snd (publish example_env ''https://docs.example.com'' ''one'' empty_state)) ''https://docs.example.com'' = Some ''asst-1''"
    by code_simp
  with delete_assistant_keeps_registry [of example_env "''asst-1''"
      "snd (publish example_env ''https://docs.example.com'' ''one'' empty_state)"]
    delete_assistant_keeps_registry [of example_env "''asst-1''" empty_state]
  show ?thesis by (simp add: empty_state_def)
qed





end
